theory Spec2Isabelle
  imports Main "HOL-Library.Char_ord" "HOL-Library.List_Lexorder"
begin

section \<open>Data model\<close>

text \<open>
  The interface \<open>LetterBoxWord\<close> of \<open>index.ts\<close>: the text of a word and the keys of
  the letter nodes it walks through, in order. A JavaScript \<open>Set\<close> of such objects
  is iterated in insertion order and compares its members by reference, so it is
  modelled as the list of its members in insertion order; two equal records at two
  positions stand for two objects with the same content.
\<close>

record LetterBoxWord =
  word :: string
  nodeKeys :: "string list"

record LetterBoxSolution =
  numSeenLetterNodes :: nat
  letterBoxWordList :: "LetterBoxWord list"

section \<open>Strings\<close>

text \<open>
  A template literal \<open>${i}\<close> renders an array index in decimal, and
  \<open>parts.join(sep)\<close> puts the separator between the parts.
\<close>

definition digitChar :: "nat \<Rightarrow> char" where
  "digitChar d = ''0123456789'' ! d"

fun decimal :: "nat \<Rightarrow> string" where
  "decimal n = (if n < 10 then [digitChar n] else decimal (n div 10) @ [digitChar (n mod 10)])"

declare decimal.simps [simp del]

fun join :: "string \<Rightarrow> string list \<Rightarrow> string" where
  "join sep [] = []"
| "join sep [x] = x"
| "join sep (x # y # ys) = x @ sep @ join sep (y # ys)"

text \<open>
  The members of \<open>new Set(xs)\<close> in insertion order: the first occurrence of every
  element is kept.
\<close>

fun uniq :: "'a list \<Rightarrow> 'a list" where
  "uniq [] = []"
| "uniq (x # xs) = x # filter (\<lambda>y. y \<noteq> x) (uniq xs)"

section \<open>The trie index\<close>

text \<open>
  \<open>createTrie\<close> and the two queries \<open>isWord\<close> and \<open>isPrefix\<close> go through the
  package \<open>trie-search\<close>, which is not part of the repository. \<open>createTrie\<close> builds
  the trie with \<open>new TrieSearch('word')\<close>, that is with the package's default
  options: case is ignored, keys and phrases are split at white space
  (\<open>splitOnRegEx = /\s/g\<close>), the minimum length is 1, and a key that was split is
  not indexed as a whole. The model follows the package on strings of ASCII
  characters; on these its expansion of accented letters finds nothing to expand.
  An item of the trie is an object \<open>{word}\<close>; \<open>createTrie\<close> makes one for every
  member of a \<open>Set\<close> of strings, so an item is modelled by its field \<open>word\<close>.
\<close>

text \<open>\<open>key.toLowerCase()\<close> on ASCII characters: the letters A to Z are replaced.\<close>

definition upperLetters :: string where
  "upperLetters = ''ABCDEFGHIJKLMNOPQRSTUVWXYZ''"

definition lowerLetters :: string where
  "lowerLetters = ''abcdefghijklmnopqrstuvwxyz''"

definition toLowerChar :: "char \<Rightarrow> char" where
  "toLowerChar c = (case map_of (zip upperLetters lowerLetters) c of None \<Rightarrow> c | Some l \<Rightarrow> l)"

definition toLowerCase :: "string \<Rightarrow> string" where
  "toLowerCase s = map toLowerChar s"

text \<open>
  The ASCII characters that the class \<open>\s\<close> matches: space, tab, line feed,
  vertical tab, form feed and carriage return.
\<close>

definition isWhiteSpace :: "char \<Rightarrow> bool" where
  "isWhiteSpace c = (c \<in> set [CHR '' '', CHR 0x09, CHR 0x0A, CHR 0x0B, CHR 0x0C, CHR 0x0D])"

text \<open>
  \<open>s.split(regex)\<close> for a regular expression that matches one character: the pieces
  between the matches, the empty ones included.
\<close>

fun splitOn :: "(char \<Rightarrow> bool) \<Rightarrow> string \<Rightarrow> string list" where
  "splitOn P [] = [[]]"
| "splitOn P (c # cs) =
     (if P c then [] # splitOn P cs
      else (case splitOn P cs of [] \<Rightarrow> [[c]] | w # ws \<Rightarrow> (c # w) # ws))"

text \<open>
  \<open>regex.test(s)\<close> for such an expression with the flag \<open>g\<close>: the expression carries
  a position \<open>lastIndex\<close> from one call to the next. The search starts there; a
  match leaves the position behind the match, a failure resets it to 0. The result is
  the answer and the new position.
\<close>

definition reTest :: "(char \<Rightarrow> bool) \<Rightarrow> nat \<Rightarrow> string \<Rightarrow> bool \<times> nat" where
  "reTest P lastIndex s =
     (case filter (\<lambda>i. P (s ! i)) [lastIndex ..< length s] of
        [] \<Rightarrow> (False, 0)
      | i # _ \<Rightarrow> (True, Suc i))"

text \<open>
  A node of the package is a JavaScript object with the property \<open>value\<close>, the
  items indexed under exactly the key of the node, in push order, and one property
  per next character, the child. \<open>for (k in node)\<close> enumerates the properties that
  are array indices, here the digits, in ascending order first, and then the others
  in the order of their creation. The children of a node are listed in this order.
\<close>

datatype TrieNode = TrieNode (nodeValue: "string list") (nodeChildren: "(char \<times> TrieNode) list")

definition emptyTrie :: TrieNode where
  "emptyTrie = TrieNode [] []"

definition isArrayIndex :: "char \<Rightarrow> bool" where
  "isArrayIndex k = (k \<in> set ''0123456789'')"

text \<open>\<open>node[k] = {}\<close> for a character \<open>k\<close> that the node has no property for.\<close>

fun addChild :: "char \<Rightarrow> TrieNode \<Rightarrow> (char \<times> TrieNode) list \<Rightarrow> (char \<times> TrieNode) list" where
  "addChild k child [] = [(k, child)]"
| "addChild k child ((k', child') # cs) =
     (if isArrayIndex k \<and> (\<not> isArrayIndex k' \<or> k < k')
      then (k, child) # (k', child') # cs
      else (k', child') # addChild k child cs)"

text \<open>The package's \<open>insert(keyArr, value, node)\<close>: walk down, creating nodes, and push.\<close>

fun trieInsert :: "string \<Rightarrow> string \<Rightarrow> TrieNode \<Rightarrow> TrieNode" where
  "trieInsert [] item (TrieNode vs cs) = TrieNode (vs @ [item]) cs"
| "trieInsert (k # keyArr) item (TrieNode vs cs) =
     (case map_of cs k of
        None \<Rightarrow> TrieNode vs (addChild k (trieInsert keyArr item emptyTrie) cs)
      | Some _ \<Rightarrow>
          TrieNode vs
            (map (\<lambda>(k', child). if k' = k then (k', trieInsert keyArr item child)
                                 else (k', child)) cs))"

text \<open>
  The package's \<open>map(key, value)\<close>. The state is the root of the trie and the
  position of \<open>splitOnRegEx\<close>. If \<open>splitOnRegEx.test(key)\<close> finds white space, the
  key is split; unless every piece is empty, \<open>map\<close> is called for every piece that
  is not empty, and the key as a whole is not indexed. A piece has no white space,
  so its own test fails and resets the position, and the piece is indexed in lower
  case. In all other cases the key is indexed as a whole, in lower case.
\<close>

definition trieMap :: "string \<Rightarrow> string \<Rightarrow> TrieNode \<times> nat \<Rightarrow> TrieNode \<times> nat" where
  "trieMap key item st =
     (case st of (t, lastIndex) \<Rightarrow>
        (case reTest isWhiteSpace lastIndex key of
           (True, lastIndex') \<Rightarrow>
             (let phrases = filter (\<lambda>p. p \<noteq> []) (splitOn isWhiteSpace key)
              in if phrases \<noteq> []
                 then (fold (\<lambda>p. trieInsert (toLowerCase p) item) phrases t, 0)
                 else (trieInsert (toLowerCase key) item t, lastIndex'))
         | (False, lastIndex') \<Rightarrow> (trieInsert (toLowerCase key) item t, lastIndex')))"

text \<open>
  \<open>trie.add({word})\<close>: the item is indexed under its field \<open>word\<close>; an empty
  \<open>word\<close> is skipped (\<open>if (!val) continue\<close>).
\<close>

definition trieAdd :: "string \<Rightarrow> TrieNode \<times> nat \<Rightarrow> TrieNode \<times> nat" where
  "trieAdd w st = (if w = [] then st else trieMap w w st)"

text \<open>The package's \<open>findNode\<close>.\<close>

fun findNode :: "string \<Rightarrow> TrieNode \<Rightarrow> TrieNode option" where
  "findNode [] node = Some node"
| "findNode (k # keyArr) (TrieNode vs cs) =
     (case map_of cs k of None \<Rightarrow> None | Some child \<Rightarrow> findNode keyArr child)"

text \<open>
  The package's \<open>aggregate\<close>: the items of the node itself first, then those of
  every child.
\<close>

fun aggregate :: "TrieNode \<Rightarrow> string list" where
  "aggregate (TrieNode vs cs) = vs @ concat (map (\<lambda>p. aggregate (snd p)) cs)"

text \<open>
  The matches of one word of a phrase: \<open>aggregate\<close> collects the items below the
  node of the word in a \<open>HashArray\<close>, which takes an object once.
\<close>

definition getWord :: "string \<Rightarrow> TrieNode \<Rightarrow> string list" where
  "getWord w t = (case findNode w t of None \<Rightarrow> [] | Some node \<Rightarrow> uniq (aggregate node))"

text \<open>
  \<open>trie.search(phrase)\<close>: the phrase is put in lower case and split at white
  space; a word shorter than the minimum length 1 is skipped; the result is the
  matches of the first word that the matches of every further word also contain
  (\<open>ret.intersection(temp)\<close>), and nothing if no word is left.
\<close>

definition search :: "string \<Rightarrow> TrieNode \<Rightarrow> string list" where
  "search phrase t =
     (let words = filter (\<lambda>w. \<not> length w < 1) (splitOn isWhiteSpace (toLowerCase phrase))
      in case words of
           [] \<Rightarrow> []
         | w # rest \<Rightarrow> fold (\<lambda>w' ret. filter (\<lambda>x. x \<in> set (getWord w' t)) ret) rest (getWord w t))"

text \<open>
  \<open>createTrie\<close>: \<open>words.forEach(word => trie.add({word}))\<close> on a new trie, whose
  \<open>splitOnRegEx\<close> starts at position 0. The \<open>Set\<close> of words is the list of its
  members in insertion order.
\<close>

definition createTrie :: "string list \<Rightarrow> TrieNode" where
  "createTrie words = fst (fold trieAdd words (emptyTrie, 0))"

text \<open>\<open>isWord\<close>: \<open>words.length > 0 && words[0].word == s\<close> after the length test.\<close>

definition isWord :: "string \<Rightarrow> TrieNode \<Rightarrow> bool" where
  "isWord s t =
     (if length s < 3 then False
      else (case search s t of [] \<Rightarrow> False | w # _ \<Rightarrow> w = s))"

definition isPrefix :: "string \<Rightarrow> TrieNode \<Rightarrow> bool" where
  "isPrefix prefix t = (case search prefix t of [] \<Rightarrow> False | _ # _ \<Rightarrow> True)"

section \<open>The graph library\<close>

text \<open>
  Both graphs are objects of the package \<open>@dagrejs/graphlib\<close>, which is not part of
  the repository. The model keeps what the solver reads: the nodes with their labels
  in insertion order (a node created by \<open>setEdge\<close> alone has the label
  \<open>undefined\<close>, here \<open>None\<close>), and the edges as pairs \<open>(v, w)\<close> in insertion order.
  An undirected graph stores an edge with its end points in ascending string order,
  as the package does with JavaScript's \<open>>\<close> on strings, the lexicographic order
  by character code. The package enumerates keys with \<open>Object.keys\<close>, which is
  insertion order for keys that are not array indices; every key the solver makes
  from a layout contains a colon.
\<close>

record 'a Graph =
  isDirected :: bool
  nodeList :: "(string \<times> 'a option) list"
  edgeList :: "(string \<times> string) list"

definition newGraph :: "bool \<Rightarrow> 'a Graph" where
  "newGraph directed = \<lparr>isDirected = directed, nodeList = [], edgeList = []\<rparr>"

definition hasNode :: "'a Graph \<Rightarrow> string \<Rightarrow> bool" where
  "hasNode g v = (v \<in> fst ` set (nodeList g))"

text \<open>\<open>graph.setNode(v, label)\<close>: an existing node keeps its place and gets the new label.\<close>

definition setNode :: "string \<Rightarrow> 'a \<Rightarrow> 'a Graph \<Rightarrow> 'a Graph" where
  "setNode v l g =
     (if hasNode g v
      then g\<lparr>nodeList := map (\<lambda>(k, x). if k = v then (k, Some l) else (k, x)) (nodeList g)\<rparr>
      else g\<lparr>nodeList := nodeList g @ [(v, Some l)]\<rparr>)"

text \<open>\<open>graph.setNode(v)\<close>, as \<open>setEdge\<close> calls it: a new node has no label.\<close>

definition ensureNode :: "string \<Rightarrow> 'a Graph \<Rightarrow> 'a Graph" where
  "ensureNode v g = (if hasNode g v then g else g\<lparr>nodeList := nodeList g @ [(v, None)]\<rparr>)"

text \<open>
  \<open>graph.setEdge(v, w)\<close>: an existing edge is left as it is; otherwise both end points
  become nodes and the edge is appended.
\<close>

definition setEdge :: "string \<Rightarrow> string \<Rightarrow> 'a Graph \<Rightarrow> 'a Graph" where
  "setEdge v w g =
     (let e = (if \<not> isDirected g \<and> w < v then (w, v) else (v, w))
      in if e \<in> set (edgeList g) then g
         else (ensureNode w (ensureNode v g))\<lparr>edgeList := edgeList g @ [e]\<rparr>)"

text \<open>\<open>graph.node(v)\<close>: the label, \<open>undefined\<close> for a missing node.\<close>

definition node :: "'a Graph \<Rightarrow> string \<Rightarrow> 'a option" where
  "node g v = (case map_of (nodeList g) v of None \<Rightarrow> None | Some l \<Rightarrow> l)"

definition nodes :: "'a Graph \<Rightarrow> string list" where
  "nodes g = map fst (nodeList g)"

definition nodeCount :: "'a Graph \<Rightarrow> nat" where
  "nodeCount g = length (nodeList g)"

text \<open>
  \<open>predecessors\<close>, \<open>successors\<close> and \<open>neighbors\<close> return \<open>undefined\<close> (here \<open>None\<close>)
  for a key that is not a node.
\<close>

definition predecessors :: "'a Graph \<Rightarrow> string \<Rightarrow> string list option" where
  "predecessors g v =
     (if hasNode g v then Some (map fst (filter (\<lambda>e. snd e = v) (edgeList g))) else None)"

definition successors :: "'a Graph \<Rightarrow> string \<Rightarrow> string list option" where
  "successors g v =
     (if hasNode g v then Some (map snd (filter (\<lambda>e. fst e = v) (edgeList g))) else None)"

definition neighbors :: "'a Graph \<Rightarrow> string \<Rightarrow> string list option" where
  "neighbors g v =
     (case predecessors g v of
        None \<Rightarrow> None
      | Some preds \<Rightarrow>
          (case successors g v of
             None \<Rightarrow> None
           | Some sucs \<Rightarrow> Some (uniq (preds @ sucs))))"

text \<open>The idiom \<open>xs || []\<close> of the solver.\<close>

definition orEmpty :: "'a list option \<Rightarrow> 'a list" where
  "orEmpty r = (case r of None \<Rightarrow> [] | Some xs \<Rightarrow> xs)"

section \<open>Letter graph builder\<close>

text \<open>The key \<open>`${i}${letterI}:${letter}`\<close> of a letter node.\<close>

definition letterKey :: "nat \<Rightarrow> nat \<Rightarrow> string \<Rightarrow> string" where
  "letterKey i letterI letter = decimal i @ decimal letterI @ '':'' @ letter"

text \<open>The body of the innermost loop of \<open>createLetterBoxGraph\<close>.\<close>

definition connectLetters ::
  "string list list \<Rightarrow> nat \<Rightarrow> nat \<Rightarrow> nat \<Rightarrow> nat \<Rightarrow> string Graph \<Rightarrow> string Graph" where
  "connectLetters sides i j letterI letterJ graph =
     (let letter1 = sides ! i ! letterI;
          letter1Key = letterKey i letterI letter1;
          letter2 = sides ! j ! letterJ;
          letter2Key = letterKey j letterJ letter2
      in setEdge letter1Key letter2Key
           (setNode letter2Key letter2 (setNode letter1Key letter1 graph)))"

text \<open>
  The four nested loops; every index stays below the length of its array, so no
  read is out of range.
\<close>

definition createLetterBoxGraph :: "string list list \<Rightarrow> string Graph" where
  "createLetterBoxGraph sides =
     fold (\<lambda>i.
       fold (\<lambda>j.
         fold (\<lambda>letterI.
           fold (\<lambda>letterJ. connectLetters sides i j letterI letterJ)
             [0..<length (sides ! j)])
           [0..<length (sides ! i)])
         [i + 1..<length sides])
       [0..<length sides] (newGraph False)"

section \<open>Word finder\<close>

text \<open>
  \<open>path.map(pathNodeKey => graph.node(pathNodeKey)).join('')\<close>; \<open>join\<close> renders
  \<open>undefined\<close> as the empty string.
\<close>

definition prefixOf :: "string Graph \<Rightarrow> string list \<Rightarrow> string" where
  "prefixOf graph path =
     concat (map (\<lambda>pathNodeKey. case node graph pathNodeKey of None \<Rightarrow> [] | Some l \<Rightarrow> l) path)"

text \<open>
  \<open>visitNode\<close> recurses with no bound of its own: the walk ends only where the
  trie knows no word with the current prefix. The first argument bounds the depth of
  nested calls; \<open>None\<close> is a walk that needs more than that. The array \<open>path\<close> is
  pushed on entry and popped on every exit, so each call sees the caller's path and
  leaves it as it was: the model passes it by value. The state threaded through the
  calls is the set \<open>seenPaths\<close> and the collection \<open>words\<close>.
  \<open>visitNeighbors\<close> is the loop over \<open>graph.neighbors(nodeKey) || []\<close>.
\<close>

fun visitNode ::
    "nat \<Rightarrow> string \<Rightarrow> string list \<Rightarrow> string Graph \<Rightarrow> TrieNode \<Rightarrow>
     string set \<times> LetterBoxWord list \<Rightarrow> (string set \<times> LetterBoxWord list) option"
  and visitNeighbors ::
    "nat \<Rightarrow> string list \<Rightarrow> string list \<Rightarrow> string Graph \<Rightarrow> TrieNode \<Rightarrow>
     string set \<times> LetterBoxWord list \<Rightarrow> (string set \<times> LetterBoxWord list) option"
where
  "visitNode 0 nodeKey path graph trie st = None"
| "visitNode (Suc depth) nodeKey path graph trie (seenPaths, words) =
     (let path' = path @ [nodeKey];
          pathKey = join '' '' path';
          prefix = prefixOf graph path'
      in if pathKey \<in> seenPaths then Some (seenPaths, words)
         else
           (let seenPaths' = insert pathKey seenPaths;
                words' = (if isWord prefix trie
                          then words @ [\<lparr>word = prefix, nodeKeys = path'\<rparr>] else words)
            in if isPrefix prefix trie
               then visitNeighbors depth (orEmpty (neighbors graph nodeKey)) path' graph trie
                      (seenPaths', words')
               else Some (seenPaths', words')))"
| "visitNeighbors depth [] path graph trie st = Some st"
| "visitNeighbors depth (neighborKey # rest) path graph trie st =
     (case visitNode depth neighborKey path graph trie st of
        None \<Rightarrow> None
      | Some st' \<Rightarrow> visitNeighbors depth rest path graph trie st')"

text \<open>
  \<open>findWords\<close>: one walk from every node, each with a fresh \<open>seenPaths\<close>, all adding
  to the same \<open>words\<close>.
\<close>

fun findWordsFrom ::
    "nat \<Rightarrow> string list \<Rightarrow> string Graph \<Rightarrow> TrieNode \<Rightarrow> LetterBoxWord list \<Rightarrow>
     LetterBoxWord list option" where
  "findWordsFrom depth [] graph trie words = Some words"
| "findWordsFrom depth (n # rest) graph trie words =
     (case visitNode depth n [] graph trie ({}, words) of
        None \<Rightarrow> None
      | Some (seenPaths, words') \<Rightarrow> findWordsFrom depth rest graph trie words')"

definition findWords :: "nat \<Rightarrow> TrieNode \<Rightarrow> string Graph \<Rightarrow> LetterBoxWord list option" where
  "findWords depth trie graph = findWordsFrom depth (nodes graph) graph trie []"

section \<open>Dominance filter\<close>

text \<open>
  The test of the inner loop of \<open>filterWordsInLetterBox\<close>:
  \<open>new Set([...word1KeySet].filter(x => !word2KeySet.has(x))).size === 0\<close>.
\<close>

definition nothingLeft :: "LetterBoxWord \<Rightarrow> LetterBoxWord \<Rightarrow> bool" where
  "nothingLeft word1 word2 =
     (let word1KeySet = set (nodeKeys word1); word2KeySet = set (nodeKeys word2)
      in card (Set.filter (\<lambda>x. x \<notin> word2KeySet) word1KeySet) = 0)"

text \<open>
  The inner loop, \<open>for (j = i + 1; j < wordsArray.length; j++)\<close>, run on the words
  after position \<open>i\<close>; its result is the final value of \<open>addWord\<close>. The \<open>break\<close>
  is the first branch.
\<close>

fun addWord :: "LetterBoxWord \<Rightarrow> LetterBoxWord list \<Rightarrow> bool" where
  "addWord word1 [] = True"
| "addWord word1 (word2 # rest) =
     (if nothingLeft word1 word2 then False else addWord word1 rest)"

text \<open>
  The outer loop over \<open>i\<close>: the word at position \<open>i\<close> is compared with the words at
  the positions after it only.
\<close>

fun filterWordsInLetterBox :: "LetterBoxWord list \<Rightarrow> LetterBoxWord list" where
  "filterWordsInLetterBox [] = []"
| "filterWordsInLetterBox (word1 # later) =
     (if addWord word1 later then word1 # filterWordsInLetterBox later
      else filterWordsInLetterBox later)"

section \<open>Word graph builder\<close>

text \<open>
  \<open>word.nodeKeys[0]\<close> and \<open>word.nodeKeys[word.nodeKeys.length - 1]\<close>; both are
  \<open>undefined\<close> (here \<open>None\<close>) for an empty array, and a JavaScript \<open>Map\<close> takes
  \<open>undefined\<close> as a key.
\<close>

definition startCharKey :: "LetterBoxWord \<Rightarrow> string option" where
  "startCharKey w = (case nodeKeys w of [] \<Rightarrow> None | k # _ \<Rightarrow> Some k)"

definition endCharKey :: "LetterBoxWord \<Rightarrow> string option" where
  "endCharKey w = (if nodeKeys w = [] then None else Some (last (nodeKeys w)))"

text \<open>
  A \<open>Map\<close> from keys to arrays is an association list in insertion order.
  \<open>mapPush\<close> is \<open>if (!m.has(k)) m.set(k, []); m.get(k).push(v)\<close>.
\<close>

definition mapPush :: "'k \<Rightarrow> 'v \<Rightarrow> ('k \<times> 'v list) list \<Rightarrow> ('k \<times> 'v list) list" where
  "mapPush k v m =
     (if k \<in> fst ` set m
      then map (\<lambda>(k', vs). if k' = k then (k', vs @ [v]) else (k', vs)) m
      else m @ [(k, [v])])"

definition wordKey :: "LetterBoxWord \<Rightarrow> string" where
  "wordKey w = join ''->'' (nodeKeys w)"

text \<open>
  The first loop of \<open>createWordGraph\<close>: the words by first and by last letter node.
  The two maps do not depend on each other, and each is built by a loop of its own.
\<close>

definition startMapOf :: "LetterBoxWord list \<Rightarrow> (string option \<times> LetterBoxWord list) list" where
  "startMapOf words = fold (\<lambda>w. mapPush (startCharKey w) w) words []"

definition endMapOf :: "LetterBoxWord list \<Rightarrow> (string option \<times> LetterBoxWord list) list" where
  "endMapOf words = fold (\<lambda>w. mapPush (endCharKey w) w) words []"

text \<open>The body of the innermost loop of \<open>createWordGraph\<close>.\<close>

definition linkWords ::
  "LetterBoxWord \<Rightarrow> LetterBoxWord \<Rightarrow> LetterBoxWord Graph \<Rightarrow> LetterBoxWord Graph" where
  "linkWords startWord endWord graph =
     (let startWordKey = wordKey startWord;
          endWordKey = wordKey endWord;
          graph' = setNode endWordKey endWord (setNode startWordKey startWord graph)
      in if startWordKey \<noteq> endWordKey then setEdge endWordKey startWordKey graph' else graph')"

definition createWordGraph :: "LetterBoxWord list \<Rightarrow> LetterBoxWord Graph" where
  "createWordGraph words =
     (let startMap = startMapOf words;
          endMap = endMapOf words;
          allKeys = uniq (map fst startMap @ map fst endMap)
      in fold (\<lambda>key.
           fold (\<lambda>startWord.
             fold (\<lambda>endWord. linkWords startWord endWord) (orEmpty (map_of endMap key)))
             (orEmpty (map_of startMap key)))
           allKeys (newGraph True))"

section \<open>Solution search\<close>

text \<open>
  The two ways the search can abort: the \<open>throw Error('too many paths')\<close> of the depth
  guard, and the \<open>TypeError\<close> that JavaScript raises when \<open>nodeKeys\<close> is read from
  the label \<open>undefined\<close> of a key that is not a labelled node.
\<close>

datatype error = TooManyPaths | TypeError

text \<open>\<open>path.map(key => graph.node(key))\<close>, with the later read of each \<open>nodeKeys\<close>.\<close>

definition wordsOf :: "LetterBoxWord Graph \<Rightarrow> string list \<Rightarrow> error + LetterBoxWord list" where
  "wordsOf graph path =
     (case those (map (node graph) path) of None \<Rightarrow> Inl TypeError | Some ws \<Rightarrow> Inr ws)"

text \<open>\<open>new Set(words.map(word => word.nodeKeys).flat())\<close>.\<close>

definition letterNodesOf :: "LetterBoxWord list \<Rightarrow> string set" where
  "letterNodesOf ws = set (concat (map nodeKeys ws))"

definition hasNewNode :: "LetterBoxWord \<Rightarrow> LetterBoxWord list \<Rightarrow> bool" where
  "hasNewNode w seenWords =
     (let seenNodes = letterNodesOf seenWords;
          seenNodesLength = card seenNodes
      in card (seenNodes \<union> set (nodeKeys w)) > seenNodesLength)"

text \<open>
  \<open>exploreWordGraph\<close>. As in \<open>visitNode\<close>, \<open>path\<close> is popped on every normal exit
  and is passed by value; the state is \<open>seenPaths\<close> and \<open>solutions\<close>. A \<open>throw\<close>
  is caught nowhere, so an error ends the whole search: it is the result \<open>Inl\<close> of
  every enclosing call. \<open>exploreSuccessors\<close> is the loop over
  \<open>graph.successors(nodeKey) || []\<close>.
\<close>

function exploreWordGraph ::
    "string \<Rightarrow> string list \<Rightarrow> LetterBoxWord Graph \<Rightarrow> nat \<Rightarrow>
     string set \<times> LetterBoxSolution list \<Rightarrow> error + string set \<times> LetterBoxSolution list"
  and exploreSuccessors ::
    "string list \<Rightarrow> string list \<Rightarrow> LetterBoxWord Graph \<Rightarrow> nat \<Rightarrow>
     string set \<times> LetterBoxSolution list \<Rightarrow> error + string set \<times> LetterBoxSolution list"
where
  "exploreWordGraph nodeKey path graph minNumNodes (seenPaths, solutions) =
     (if length path > 25 then Inl TooManyPaths
      else
        (case wordsOf graph path of
           Inl e \<Rightarrow> Inl e
         | Inr seenWords \<Rightarrow>
             (case node graph nodeKey of
                None \<Rightarrow> Inl TypeError
              | Some w \<Rightarrow>
                  if \<not> hasNewNode w seenWords then Inr (seenPaths, solutions)
                  else
                    (let path' = path @ [nodeKey];
                         pathKey = concat path'
                     in if pathKey \<in> seenPaths then Inr (seenPaths, solutions)
                        else
                          (case wordsOf graph path' of
                             Inl e \<Rightarrow> Inl e
                           | Inr words \<Rightarrow>
                               (let seenLetterNodes = letterNodesOf words
                                in if card seenLetterNodes \<ge> minNumNodes
                                   then Inr (insert pathKey seenPaths,
                                          solutions @
                                            [\<lparr>numSeenLetterNodes = card seenLetterNodes,
                                              letterBoxWordList = words\<rparr>])
                                   else exploreSuccessors (orEmpty (successors graph nodeKey))
                                          path' graph minNumNodes
                                          (insert pathKey seenPaths, solutions)))))))"
| "exploreSuccessors [] path graph minNumNodes st = Inr st"
| "exploreSuccessors (neighborKey # rest) path graph minNumNodes st =
     (case exploreWordGraph neighborKey path graph minNumNodes st of
        Inl e \<Rightarrow> Inl e
      | Inr st' \<Rightarrow> exploreSuccessors rest path graph minNumNodes st')"
  by pat_completeness auto

termination
  by (relation "inv_image (less_than <*lex*> less_than)
        (\<lambda>x. case x of
                Inl (nodeKey, path, rest) \<Rightarrow> (2 * (27 - length path), 0)
              | Inr (keys, path, rest) \<Rightarrow> (2 * (27 - length path) + 1, length keys))")
     auto

text \<open>
  \<open>findSolutions\<close>: one search from every word, each with a fresh \<open>seenPaths\<close>, all
  adding to the same \<open>solutions\<close>.
\<close>

fun findSolutionsFrom ::
    "string list \<Rightarrow> LetterBoxWord Graph \<Rightarrow> nat \<Rightarrow> LetterBoxSolution list \<Rightarrow>
     error + LetterBoxSolution list" where
  "findSolutionsFrom [] wordGraph minNumNodes solutions = Inr solutions"
| "findSolutionsFrom (nodeKey # rest) wordGraph minNumNodes solutions =
     (case exploreWordGraph nodeKey [] wordGraph minNumNodes ({}, solutions) of
        Inl e \<Rightarrow> Inl e
      | Inr (seenPaths, solutions') \<Rightarrow> findSolutionsFrom rest wordGraph minNumNodes solutions')"

definition findSolutions :: "LetterBoxWord Graph \<Rightarrow> nat \<Rightarrow> error + LetterBoxSolution list" where
  "findSolutions wordGraph minNumNodes =
     findSolutionsFrom (nodes wordGraph) wordGraph minNumNodes []"

section \<open>The run of the solver\<close>

text \<open>
  The calls of \<open>main\<close>, from the dictionary and the layout to the solutions,
  without the reading of the file and the printing. The first argument is the depth
  bound of the word finder.
\<close>

definition solve ::
  "nat \<Rightarrow> string list \<Rightarrow> string list list \<Rightarrow>
   (LetterBoxWord list \<times> (error + LetterBoxSolution list)) option" where
  "solve depth allWords sides =
     (let trie = createTrie allWords;
          graph = createLetterBoxGraph sides
      in case findWords depth trie graph of
           None \<Rightarrow> None
         | Some wordsInLetterBox \<Rightarrow>
             (let filteredWordsInLetterBox = filterWordsInLetterBox wordsInLetterBox;
                  wordGraph = createWordGraph filteredWordsInLetterBox
              in Some (wordsInLetterBox, findSolutions wordGraph (nodeCount graph))))"

section \<open>Notions for stating the properties\<close>

subsection \<open>Trie\<close>

text \<open>
  A word as \<open>getWords\<close> delivers it: \<open>getWords\<close> keeps the lines that match
  \<open>/^[a-zA-Z]+$/\<close> and puts them in lower case, so every character is one of the
  letters a to z.
\<close>

definition lowerCase :: "string \<Rightarrow> bool" where
  "lowerCase w = list_all (\<lambda>c. c \<in> set lowerLetters) w"

text \<open>The items stored at the node of a key, for stating what the trie holds.\<close>

definition valuesAt :: "TrieNode \<Rightarrow> string \<Rightarrow> string list" where
  "valuesAt t key = (case findNode key t of None \<Rightarrow> [] | Some nd \<Rightarrow> nodeValue nd)"

text \<open>
  No item is shorter than the key of a node it sits at: every item at or below a node
  of depth \<open>n\<close> has at least \<open>n\<close> characters.
\<close>

fun keyedBelow :: "nat \<Rightarrow> TrieNode \<Rightarrow> bool" where
  "keyedBelow n (TrieNode vs cs) =
     ((\<forall>v \<in> set vs. n \<le> length v) \<and> (\<forall>(k, child) \<in> set cs. keyedBelow (Suc n) child))"

subsection \<open>Graphs\<close>

text \<open>Adjacency as the word finder reads it: \<open>b\<close> is among \<open>graph.neighbors(a) || []\<close>.\<close>

definition adjacent :: "'a Graph \<Rightarrow> string \<Rightarrow> string \<Rightarrow> bool" where
  "adjacent g a b = (b \<in> set (orEmpty (neighbors g a)))"

text \<open>Both end points of every edge are nodes, as \<open>setEdge\<close> sees to.\<close>

definition closedEdges :: "'a Graph \<Rightarrow> bool" where
  "closedEdges g = (\<forall>e \<in> set (edgeList g). hasNode g (fst e) \<and> hasNode g (snd e))"

text \<open>The pair under which \<open>setEdge(v, w)\<close> stores an edge.\<close>

definition edgePair :: "bool \<Rightarrow> string \<Rightarrow> string \<Rightarrow> string \<times> string" where
  "edgePair directed v w = (if \<not> directed \<and> w < v then (w, v) else (v, w))"

text \<open>The node keys and the edges of a graph, as one set.\<close>

definition graphItems :: "'a Graph \<Rightarrow> (string + string \<times> string) set" where
  "graphItems g = Inl ` set (nodes g) \<union> Inr ` set (edgeList g)"

subsection \<open>Letter graph\<close>

text \<open>The letter occurrences of a layout: side index and position within the side.\<close>

definition occurrences :: "string list list \<Rightarrow> (nat \<times> nat) list" where
  "occurrences sides =
     concat (map (\<lambda>i. map (\<lambda>p. (i, p)) [0..<length (sides ! i)]) [0..<length sides])"

text \<open>The node key that \<open>createLetterBoxGraph\<close> gives a letter occurrence.\<close>

definition keyOf :: "string list list \<Rightarrow> nat \<times> nat \<Rightarrow> string" where
  "keyOf sides occ = letterKey (fst occ) (snd occ) (sides ! fst occ ! snd occ)"

text \<open>A letter occurrence with at least one letter on another side.\<close>

definition connected :: "string list list \<Rightarrow> nat \<times> nat \<Rightarrow> bool" where
  "connected sides occ = (\<exists>j \<in> set [0..<length sides]. j \<noteq> fst occ \<and> sides ! j \<noteq> [])"

text \<open>
  The node keys and the edge that one pass through the innermost loop of
  \<open>createLetterBoxGraph\<close> puts into the graph.
\<close>

definition stepItems :: "string list list \<Rightarrow> nat \<Rightarrow> nat \<Rightarrow> nat \<Rightarrow> nat \<Rightarrow> (string + string \<times> string) set" where
  "stepItems sides i j p q =
     Inl ` {keyOf sides (i, p), keyOf sides (j, q)} \<union>
     Inr ` {edgePair False (keyOf sides (i, p)) (keyOf sides (j, q))}"

text \<open>
  Every node of a letter graph is keyed and labelled by a letter occurrence of the
  layout.
\<close>

definition letterLabels :: "string list list \<Rightarrow> string Graph \<Rightarrow> bool" where
  "letterLabels sides g =
     (\<forall>n \<in> set (nodeList g). \<exists>i p. i < length sides \<and> p < length (sides ! i) \<and>
         n = (letterKey i p (sides ! i ! p), Some (sides ! i ! p)))"

text \<open>The invariant of the loops of \<open>createLetterBoxGraph\<close>.\<close>

definition letterGraphInv :: "string list list \<Rightarrow> string Graph \<Rightarrow> bool" where
  "letterGraphInv sides g =
     (closedEdges g \<and> letterLabels sides g \<and> distinct (map fst (nodeList g)) \<and> \<not> isDirected g)"

text \<open>Every node is labelled with a single character that is no white space.\<close>

definition singleLabels :: "string Graph \<Rightarrow> bool" where
  "singleLabels g =
     (\<forall>k. hasNode g k \<longrightarrow>
        (\<exists>l. node g k = Some l \<and> length l = 1 \<and> \<not> list_ex isWhiteSpace l))"

subsection \<open>Word finder\<close>

text \<open>A walk: each key is adjacent to the one before it.\<close>

fun isWalk :: "'a Graph \<Rightarrow> string list \<Rightarrow> bool" where
  "isWalk g [] = True"
| "isWalk g [a] = True"
| "isWalk g (a # b # rest) = (adjacent g a b \<and> isWalk g (b # rest))"

text \<open>A walk through nodes of the graph.\<close>

definition okPath :: "'a Graph \<Rightarrow> string list \<Rightarrow> bool" where
  "okPath g p = (isWalk g p \<and> (\<forall>k \<in> set p. hasNode g k))"

text \<open>
  What holds of every word the word finder records: its text is the labels of its
  node keys, the node keys are a walk through nodes, and the text has at least three
  characters.
\<close>

definition found :: "string Graph \<Rightarrow> LetterBoxWord \<Rightarrow> bool" where
  "found g w = (word w = prefixOf g (nodeKeys w) \<and> okPath g (nodeKeys w) \<and> 3 \<le> length (word w))"

subsection \<open>Word graph\<close>

text \<open>Every node of a word graph is keyed and labelled by a word of the input.\<close>

definition wordLabels :: "LetterBoxWord list \<Rightarrow> LetterBoxWord Graph \<Rightarrow> bool" where
  "wordLabels ws g = (\<forall>n \<in> set (nodeList g). \<exists>X \<in> set ws. n = (wordKey X, Some X))"

text \<open>The invariant of the loops of \<open>createWordGraph\<close>.\<close>

definition wordGraphInv :: "LetterBoxWord list \<Rightarrow> LetterBoxWord Graph \<Rightarrow> bool" where
  "wordGraphInv ws g = (closedEdges g \<and> wordLabels ws g \<and> isDirected g)"

text \<open>
  The pairs of keys that \<open>createWordGraph\<close> links: the first word ends on the letter
  node the second starts on, and their keys differ.
\<close>

definition linked :: "LetterBoxWord list \<Rightarrow> (string \<times> string) set" where
  "linked ws = {(wordKey X, wordKey Y) | X Y. X \<in> set ws \<and> Y \<in> set ws \<and>
       endCharKey X = startCharKey Y \<and> wordKey X \<noteq> wordKey Y}"

subsection \<open>Solution search\<close>

text \<open>The words that label the nodes of a graph.\<close>

definition labelsOf :: "'a Graph \<Rightarrow> 'a list" where
  "labelsOf g = concat (map (\<lambda>p. case snd p of None \<Rightarrow> [] | Some l \<Rightarrow> [l]) (nodeList g))"

text \<open>
  What holds of every solution the search records: the chain has at most 26 words,
  all of them labels of the graph; the recorded count is the number of distinct
  letter nodes of the chain, is positive and reaches the target; and no shorter
  non-empty prefix of the chain reaches the target.
\<close>

definition recorded :: "LetterBoxWord Graph \<Rightarrow> nat \<Rightarrow> LetterBoxSolution \<Rightarrow> bool" where
  "recorded g m s =
     (let ws = letterBoxWordList s in
      length ws \<le> 26 \<and> numSeenLetterNodes s = card (letterNodesOf ws) \<and>
      m \<le> card (letterNodesOf ws) \<and> 0 < card (letterNodesOf ws) \<and>
      set ws \<subseteq> set (labelsOf g) \<and>
      (\<forall>n. 0 < n \<and> n < length ws \<longrightarrow> card (letterNodesOf (take n ws)) < m))"

text \<open>
  The paths the search is entered with: every key is a labelled node, and the words
  of the path do not yet reach the target (or the path is empty).
\<close>

definition openPath :: "LetterBoxWord Graph \<Rightarrow> nat \<Rightarrow> string list \<Rightarrow> bool" where
  "openPath g m path =
     (\<exists>pw. wordsOf g path = Inr pw \<and> (pw = [] \<or> card (letterNodesOf pw) < m))"

section \<open>Example data\<close>

text \<open>
  Two words of the box with the sides a, b and c d, which together cover its four
  letter nodes.
\<close>

definition exampleWords :: "LetterBoxWord list" where
  "exampleWords =
     [\<lparr>word = ''cad'', nodeKeys = [''20:c'', ''00:a'', ''21:d'']\<rparr>,
      \<lparr>word = ''dab'', nodeKeys = [''21:d'', ''00:a'', ''10:b'']\<rparr>]"

definition exampleBox :: "string list" where
  "exampleBox = [''00:a'', ''10:b'', ''20:c'', ''21:d'']"


text \<open>
  A layout of twelve sides in which the letter at position 10 of side 1 and the letter
  at position 0 of side 11 get the same key \<open>110:a\<close>.
\<close>

definition collidingSides :: "string list list" where
  "collidingSides =
     [[], replicate 10 ''b'' @ [''a''], [], [], [], [], [], [], [], [], [], [''a'']]"

section \<open>Properties of the strings\<close>

lemma set_uniq: "set (uniq xs) = set xs"
  by (induction xs) auto

text \<open>
  Putting a word of lower-case letters in lower case and splitting it at white space
  change nothing, and the test for white space fails on it.
\<close>

lemma lower_not_upper: "c \<in> set lowerLetters \<Longrightarrow> c \<notin> set upperLetters"
  by (auto simp: lowerLetters_def upperLetters_def)

lemma toLowerChar_lower: "c \<in> set lowerLetters \<Longrightarrow> toLowerChar c = c"
proof -
  assume "c \<in> set lowerLetters"
  then have "c \<notin> set upperLetters" by (rule lower_not_upper)
  moreover have "length upperLetters = length lowerLetters"
    by (simp add: lowerLetters_def upperLetters_def)
  ultimately have "map_of (zip upperLetters lowerLetters) c = None"
    by (simp add: map_of_zip_is_None)
  then show ?thesis by (simp add: toLowerChar_def)
qed

lemma toLowerCase_lowerCase: "lowerCase w \<Longrightarrow> toLowerCase w = w"
  by (induction w) (simp_all add: lowerCase_def toLowerCase_def toLowerChar_lower)

lemma length_toLowerCase: "length (toLowerCase w) = length w"
  by (simp add: toLowerCase_def)

lemma lower_not_white: "c \<in> set lowerLetters \<Longrightarrow> \<not> isWhiteSpace c"
  by (auto simp: lowerLetters_def isWhiteSpace_def)

lemma toLowerChar_cases: "toLowerChar c = c \<or> toLowerChar c \<in> set lowerLetters \<and> c \<in> set upperLetters"
proof (cases "map_of (zip upperLetters lowerLetters) c")
  case None
  then show ?thesis by (simp add: toLowerChar_def)
next
  case (Some l)
  then have "(c, l) \<in> set (zip upperLetters lowerLetters)" by (rule map_of_SomeD)
  then have "c \<in> set upperLetters" "l \<in> set lowerLetters"
    by (auto dest: set_zip_leftD set_zip_rightD)
  with Some show ?thesis by (simp add: toLowerChar_def)
qed

lemma upper_not_white: "c \<in> set upperLetters \<Longrightarrow> \<not> isWhiteSpace c"
  by (auto simp: upperLetters_def isWhiteSpace_def)

lemma isWhiteSpace_toLowerChar: "isWhiteSpace (toLowerChar c) = isWhiteSpace c"
  using toLowerChar_cases[of c] lower_not_white upper_not_white by auto

lemma white_toLowerCase: "list_ex isWhiteSpace (toLowerCase w) = list_ex isWhiteSpace w"
  by (induction w) (simp_all add: toLowerCase_def isWhiteSpace_toLowerChar)

lemma lowerCase_no_white: "lowerCase w \<Longrightarrow> \<not> list_ex isWhiteSpace w"
  by (induction w) (simp_all add: lowerCase_def lower_not_white)

lemma splitOn_not_Nil: "splitOn P w \<noteq> []"
  by (induction w) (auto split: list.splits)

lemma splitOn_none: "\<not> list_ex P w \<Longrightarrow> splitOn P w = [w]"
  by (induction w) (auto split: list.splits)

lemma splitOn_length: "p \<in> set (splitOn P w) \<Longrightarrow> length p \<le> length w"
proof (induction w arbitrary: p)
  case Nil
  then show ?case by simp
next
  case (Cons c cs)
  show ?case
  proof (cases "P c")
    case True
    with Cons show ?thesis by (auto simp: le_Suc_eq)
  next
    case False
    obtain w ws where s: "splitOn P cs = w # ws" using splitOn_not_Nil[of P cs] by (cases "splitOn P cs") auto
    with False Cons.prems have "p = c # w \<or> p \<in> set ws" by simp
    then show ?thesis using Cons.IH[of w] Cons.IH[of p] s by (auto simp: le_Suc_eq)
  qed
qed

lemma reTest_none: "\<not> list_ex P s \<Longrightarrow> reTest P i s = (False, 0)"
proof -
  assume "\<not> list_ex P s"
  then have "filter (\<lambda>i. P (s ! i)) [i ..< length s] = []"
    by (auto simp: filter_empty_conv list_ex_iff)
  then show ?thesis by (simp add: reTest_def)
qed

section \<open>Properties of the trie index\<close>

lemma valuesAt_Nil: "valuesAt (TrieNode vs cs) [] = vs"
  by (simp add: valuesAt_def)

lemma valuesAt_Cons:
  "valuesAt (TrieNode vs cs) (d # ds) =
     (case map_of cs d of None \<Rightarrow> [] | Some child \<Rightarrow> valuesAt child ds)"
  by (simp add: valuesAt_def split: option.splits)

lemma valuesAt_emptyTrie: "valuesAt emptyTrie key = []"
  by (cases key) (simp_all add: emptyTrie_def valuesAt_Nil valuesAt_Cons)

lemma map_of_upd:
  "map_of (map (\<lambda>(k', child). if k' = k then (k', f child) else (k', child)) cs) c
     = (if c = k then map_option f (map_of cs c) else map_of cs c)"
  by (induction cs) auto

lemma map_of_addChild:
  "map_of cs k = None \<Longrightarrow> map_of (addChild k child cs) c = (if c = k then Some child else map_of cs c)"
  by (induction cs) (auto split: if_splits)

lemma set_addChild: "set (addChild k child cs) = insert (k, child) (set cs)"
  by (induction cs) (auto split: if_splits)

lemma valuesAt_trieInsert:
  "valuesAt (trieInsert key item t) k = (if k = key then valuesAt t k @ [item] else valuesAt t k)"
proof (induction key item t arbitrary: k rule: trieInsert.induct)
  case (1 item vs cs)
  then show ?case by (cases k) (simp_all add: valuesAt_Nil valuesAt_Cons)
next
  case (2 c keyArr item vs cs)
  show ?case
  proof (cases k)
    case Nil
    then show ?thesis by (simp add: valuesAt_Nil split: option.splits)
  next
    case (Cons d ds)
    show ?thesis
    proof (cases "map_of cs c")
      case None
      then show ?thesis using Cons 2(1)[OF None, of ds]
        by (auto simp: valuesAt_Cons valuesAt_emptyTrie map_of_addChild split: option.splits)
    next
      case (Some child)
      have IH: "valuesAt (trieInsert keyArr item child) ds =
            (if ds = keyArr then valuesAt child ds @ [item] else valuesAt child ds)"
        using 2(2)[OF Some map_of_SomeD[OF Some] refl refl] .
      show ?thesis using Cons Some IH
        by (auto simp: valuesAt_Cons map_of_upd split: option.splits)
    qed
  qed
qed

text \<open>
  On a word of lower-case letters \<open>trie.add\<close> indexes the word under its own
  spelling, and a query for such a word is the lookup of one node.
\<close>

lemma trieAdd_lowerCase:
  "lowerCase w \<Longrightarrow>
   trieAdd w (t, i) = (if w = [] then (t, i) else (trieInsert w w t, 0))"
  by (simp add: trieAdd_def trieMap_def reTest_none lowerCase_no_white toLowerCase_lowerCase)

lemma search_one_word:
  assumes "\<not> list_ex isWhiteSpace p" "p \<noteq> []"
  shows "search p t = getWord (toLowerCase p) t"
proof -
  have "splitOn isWhiteSpace (toLowerCase p) = [toLowerCase p]"
    using assms(1) by (intro splitOn_none) (simp add: white_toLowerCase)
  moreover have "toLowerCase p \<noteq> []" using assms(2) by (simp add: toLowerCase_def)
  ultimately show ?thesis by (simp add: search_def Let_def)
qed

lemma search_lowerCase: "lowerCase p \<Longrightarrow> p \<noteq> [] \<Longrightarrow> search p t = getWord p t"
  using search_one_word[of p t] by (simp add: lowerCase_no_white toLowerCase_lowerCase)

lemma valuesAt_trieAdd:
  "lowerCase w \<Longrightarrow>
   valuesAt (fst (trieAdd w st)) k =
     (if k = w \<and> w \<noteq> [] then valuesAt (fst st) k @ [w] else valuesAt (fst st) k)"
  by (cases st; cases w) (simp_all add: trieAdd_lowerCase valuesAt_trieInsert)

lemma valuesAt_fold:
  "\<forall>w \<in> set ws. lowerCase w \<Longrightarrow>
   valuesAt (fst (fold trieAdd ws st)) k =
     valuesAt (fst st) k @ filter (\<lambda>w. k = w \<and> w \<noteq> []) ws"
  by (induction ws arbitrary: st) (simp_all add: valuesAt_trieAdd)

lemma valuesAt_createTrie:
  "\<forall>w \<in> set ws. lowerCase w \<Longrightarrow>
   valuesAt (createTrie ws) k = filter (\<lambda>w. k = w \<and> w \<noteq> []) ws"
  by (simp add: createTrie_def valuesAt_fold valuesAt_emptyTrie)

text \<open>Every item below a node is an item of the whole trie.\<close>

lemma aggregate_child:
  "map_of cs k = Some child \<Longrightarrow> set (aggregate child) \<subseteq> set (aggregate (TrieNode vs cs))"
  by (auto dest!: map_of_SomeD)

lemma aggregate_findNode:
  "findNode key t = Some nd \<Longrightarrow> set (aggregate nd) \<subseteq> set (aggregate t)"
proof (induction key t rule: findNode.induct)
  case (1 nd')
  then show ?case by simp
next
  case (2 k keyArr vs cs)
  from 2(2) obtain child where c: "map_of cs k = Some child" and f: "findNode keyArr child = Some nd"
    by (auto split: option.splits)
  have "set (aggregate nd) \<subseteq> set (aggregate child)" using 2(1)[OF c f] .
  with aggregate_child[OF c] show ?case by blast
qed

lemma aggregate_map_upd:
  assumes "\<And>b. (k, b) \<in> set cs \<Longrightarrow> set (aggregate (f b)) \<subseteq> insert item (set (aggregate b))"
  shows "(\<Union>p\<in>set (map (\<lambda>(k', child). if k' = k then (k', f child) else (k', child)) cs). set (aggregate (snd p)))
     \<subseteq> insert item (\<Union>p\<in>set cs. set (aggregate (snd p)))"
  using assms by (induction cs) (fastforce split: if_splits)+

lemma aggregate_trieInsert:
  "set (aggregate (trieInsert key item t)) \<subseteq> insert item (set (aggregate t))"
proof (induction key item t rule: trieInsert.induct)
  case (1 item vs cs)
  then show ?case by auto
next
  case (2 k keyArr item vs cs)
  show ?case
  proof (cases "map_of cs k")
    case None
    then show ?thesis using 2(1)[OF None] by (auto simp: emptyTrie_def set_addChild)
  next
    case (Some child)
    have IH: "\<And>b. (k, b) \<in> set cs \<Longrightarrow>
        set (aggregate (trieInsert keyArr item b)) \<subseteq> insert item (set (aggregate b))"
      using 2(2)[OF Some _ refl refl] by blast
    show ?thesis using Some aggregate_map_upd[of k cs "trieInsert keyArr item" item, OF IH]
      by auto
  qed
qed

lemma aggregate_fold_insert:
  "set (aggregate (fold (\<lambda>p. trieInsert (f p) item) ps t)) \<subseteq> insert item (set (aggregate t))"
proof (induction ps arbitrary: t)
  case Nil
  then show ?case by auto
next
  case (Cons p ps)
  from Cons[of "trieInsert (f p) item t"] aggregate_trieInsert[of "f p" item t]
  show ?case by auto
qed

lemma aggregate_trieAdd:
  "set (aggregate (fst (trieAdd w st))) \<subseteq> insert w (set (aggregate (fst st)))"
proof (cases st)
  case (Pair t i)
  show ?thesis
    using aggregate_trieInsert[of "toLowerCase w" w t]
      aggregate_fold_insert[of toLowerCase w "filter (\<lambda>p. p \<noteq> []) (splitOn isWhiteSpace w)" t]
    by (auto simp: Pair trieAdd_def trieMap_def Let_def split: prod.splits bool.splits)
qed

lemma aggregate_createTrie:
  "set (aggregate (fst (fold trieAdd ws st))) \<subseteq> set (aggregate (fst st)) \<union> set ws"
proof (induction ws arbitrary: st)
  case Nil
  then show ?case by simp
next
  case (Cons w ws)
  from Cons[of "trieAdd w st"] aggregate_trieAdd[of w st] show ?case by auto
qed

text \<open>Every match of a query is an item of the trie, and every item was added.\<close>

lemma getWord_items: "set (getWord w t) \<subseteq> set (aggregate t)"
proof (cases "findNode w t")
  case None
  then show ?thesis by (simp add: getWord_def)
next
  case (Some nd)
  then show ?thesis using aggregate_findNode[OF Some] by (simp add: getWord_def set_uniq)
qed

lemma fold_filter_subset:
  "set (fold (\<lambda>w' ret. filter (P w') ret) ws init) \<subseteq> set init"
  by (induction ws arbitrary: init) (auto, fastforce)

lemma search_items: "set (search p t) \<subseteq> set (aggregate t)"
proof -
  have "set (fold (\<lambda>w' ret. filter (\<lambda>x. x \<in> set (getWord w' t)) ret) rest (getWord w t))
      \<subseteq> set (aggregate t)" for w rest
    using fold_filter_subset[of "\<lambda>w' x. x \<in> set (getWord w' t)" rest "getWord w t"]
      getWord_items[of w t] by blast
  then show ?thesis by (auto simp: search_def Let_def split: list.splits)
qed

lemma createTrie_items: "set (aggregate (createTrie ws)) \<subseteq> set ws"
  using aggregate_createTrie[of ws "(emptyTrie, 0)"] by (auto simp: createTrie_def emptyTrie_def)

text \<open>
  C2. For every string \<open>s\<close> and every dictionary the trie was built from, \<open>isWord\<close>
  is true if and only if \<open>s\<close> has length at least 3 and is an entry of the dictionary.
  The dictionary is the normalised one that \<open>getWords\<close> delivers: every entry is a
  word of the letters a to z in lower case. The string \<open>s\<close> is arbitrary.
\<close>

theorem isWord_iff:
  assumes lower: "\<forall>w \<in> set ws. lowerCase w"
  shows "isWord s (createTrie ws) \<longleftrightarrow> 3 \<le> length s \<and> s \<in> set ws"
proof (cases "length s < 3")
  case True
  then show ?thesis by (simp add: isWord_def)
next
  case False
  then have ne: "s \<noteq> []" by auto
  show ?thesis
  proof (cases "s \<in> set ws")
    case True
    then have ls: "lowerCase s" using lower by blast
    have "valuesAt (createTrie ws) s \<noteq> []" "set (valuesAt (createTrie ws) s) \<subseteq> {s}"
      using ne True by (auto simp: valuesAt_createTrie[OF lower] filter_empty_conv)
    then obtain nd rest where n: "findNode s (createTrie ws) = Some nd" and v: "nodeValue nd = s # rest"
      by (cases "valuesAt (createTrie ws) s") (auto simp: valuesAt_def split: option.splits)
    then obtain more where "getWord s (createTrie ws) = s # more"
      by (cases nd) (simp add: getWord_def)
    then show ?thesis using False True by (simp add: isWord_def search_lowerCase[OF ls ne])
  next
    case notin: False
    have "\<not> isWord s (createTrie ws)"
    proof
      assume "isWord s (createTrie ws)"
      then obtain rest where r: "search s (createTrie ws) = s # rest"
        by (auto simp: isWord_def split: if_splits list.splits)
      then have "s \<in> set (aggregate (createTrie ws))" using search_items[of s "createTrie ws"] by auto
      then have "s \<in> set ws" using createTrie_items by blast
      with notin show False by simp
    qed
    then show ?thesis using notin by simp
  qed
qed

theorem isWord_iff_witness:
  "list_all lowerCase [''cat'', ''cats'', ''do''] \<and>
   isWord ''cats'' (createTrie [''cat'', ''cats'', ''do'']) \<and>
   \<not> isWord ''ca'' (createTrie [''cat'', ''cats'', ''do'']) \<and>
   \<not> isWord ''do'' (createTrie [''cat'', ''cats'', ''do'']) \<and>
   \<not> isWord ''dog'' (createTrie [''cat'', ''cats'', ''do'']) \<and>
   \<not> isWord ''CAT'' (createTrie [''cat'', ''cats'', ''do'']) \<and>
   \<not> isWord ''cat s'' (createTrie [''cat'', ''cats'', ''do''])"
proof -
  have all: "list_all lowerCase [''cat'', ''cats'', ''do'']" by code_simp
  then have lower: "\<forall>w \<in> set [''cat'', ''cats'', ''do'']. lowerCase w"
    by (simp only: list_all_iff)
  show ?thesis
    using all isWord_iff [OF lower, of "''cats''"] isWord_iff [OF lower, of "''ca''"]
      isWord_iff [OF lower, of "''do''"] isWord_iff [OF lower, of "''dog''"]
      isWord_iff [OF lower, of "''CAT''"] isWord_iff [OF lower, of "''cat s''"]
    by simp
qed

text \<open>
  The hypothesis on the dictionary is needed, because the package ignores case: of
  the two entries \<open>CAT\<close> and \<open>cat\<close> both sit at the node \<open>cat\<close>, the first one
  first, and the query \<open>cat\<close> finds \<open>CAT\<close>.
\<close>

lemma isWord_ignores_case:
  "search ''cat'' (createTrie [''CAT'', ''cat'']) = [''CAT'', ''cat''] \<and>
   isWord ''CAT'' (createTrie [''CAT'', ''cat'']) \<and>
   \<not> isWord ''cat'' (createTrie [''CAT'', ''cat''])"
  by code_simp

text \<open>
  A prefix without white space is no longer than some entry of the dictionary,
  whatever the entries are.
\<close>

lemma keyedBelow_emptyTrie: "keyedBelow n emptyTrie"
  by (simp add: emptyTrie_def)

lemma keyedBelow_trieInsert:
  "keyedBelow n t \<Longrightarrow> n + length key \<le> length item \<Longrightarrow> keyedBelow n (trieInsert key item t)"
proof (induction key item t arbitrary: n rule: trieInsert.induct)
  case (1 item vs cs)
  then show ?case by simp
next
  case (2 k keyArr item vs cs)
  have len: "Suc n + length keyArr \<le> length item" using "2.prems"(2) by simp
  show ?case
  proof (cases "map_of cs k")
    case None
    have "keyedBelow (Suc n) (trieInsert keyArr item emptyTrie)"
      using "2.IH"(1)[OF None keyedBelow_emptyTrie len] .
    then show ?thesis using None "2.prems"(1) by (auto simp: set_addChild)
  next
    case (Some c0)
    have "keyedBelow (Suc n) (trieInsert keyArr item child)" if "(k, child) \<in> set cs" for child
      using "2.IH"(2)[OF Some that refl refl _ len] "2.prems"(1) that by auto
    then show ?thesis using Some "2.prems"(1) by (auto split: if_splits)
  qed
qed

lemma keyedBelow_fold_insert:
  "keyedBelow 0 t \<Longrightarrow> \<forall>p \<in> set ps. length (f p) \<le> length item \<Longrightarrow>
   keyedBelow 0 (fold (\<lambda>p. trieInsert (f p) item) ps t)"
  by (induction ps arbitrary: t) (simp_all add: keyedBelow_trieInsert)

lemma keyedBelow_trieAdd: "keyedBelow 0 (fst st) \<Longrightarrow> keyedBelow 0 (fst (trieAdd w st))"
proof (cases st)
  case (Pair t i)
  assume "keyedBelow 0 (fst st)"
  then have t: "keyedBelow 0 t" using Pair by simp
  have "\<forall>p \<in> set (filter (\<lambda>p. p \<noteq> []) (splitOn isWhiteSpace w)). length (toLowerCase p) \<le> length w"
    by (auto simp: length_toLowerCase dest: splitOn_length)
  from keyedBelow_fold_insert[OF t this] keyedBelow_trieInsert[OF t, of "toLowerCase w" w]
  show ?thesis using t
    by (simp add: Pair trieAdd_def trieMap_def Let_def length_toLowerCase split: prod.splits bool.splits)
qed

lemma keyedBelow_createTrie: "keyedBelow 0 (createTrie ws)"
proof -
  have "keyedBelow 0 (fst st) \<Longrightarrow> keyedBelow 0 (fst (fold trieAdd ws st))" for st
    by (induction ws arbitrary: st) (simp_all add: keyedBelow_trieAdd)
  from this[of "(emptyTrie, 0)"] show ?thesis by (simp add: createTrie_def keyedBelow_emptyTrie)
qed

lemma keyedBelow_findNode:
  "keyedBelow n t \<Longrightarrow> findNode key t = Some nd \<Longrightarrow> keyedBelow (n + length key) nd"
proof (induction key t arbitrary: n rule: findNode.induct)
  case (1 nd')
  then show ?case by simp
next
  case (2 k keyArr vs cs)
  from "2.prems"(2) obtain child where c: "map_of cs k = Some child"
    and f: "findNode keyArr child = Some nd" by (auto split: option.splits)
  have "keyedBelow (Suc n) child" using "2.prems"(1) map_of_SomeD[OF c] by auto
  from "2.IH"[OF c this f] show ?case by simp
qed

lemma keyedBelow_aggregate:
  "keyedBelow n t \<Longrightarrow> x \<in> set (aggregate t) \<Longrightarrow> n \<le> length x"
proof (induction n t rule: keyedBelow.induct)
  case (1 n vs cs)
  from "1.prems"(2) consider "x \<in> set vs" | k child where "(k, child) \<in> set cs" "x \<in> set (aggregate child)"
    by auto
  then show ?case
  proof cases
    case 1
    then show ?thesis using "1.prems"(1) by simp
  next
    case 2
    then have "keyedBelow (Suc n) child" using "1.prems"(1) by auto
    from "1.IH"[OF 2(1) refl this 2(2)] show ?thesis by simp
  qed
qed

lemma isPrefix_bound:
  assumes "isPrefix p (createTrie ws)" "\<not> list_ex isWhiteSpace p"
  shows "\<exists>w \<in> set ws. length p \<le> length w"
proof -
  from assms(1) obtain x rest where s: "search p (createTrie ws) = x # rest"
    by (auto simp: isPrefix_def split: list.splits)
  have ne: "p \<noteq> []" using s by (auto simp: search_def Let_def toLowerCase_def)
  from s have "x \<in> set (getWord (toLowerCase p) (createTrie ws))"
    by (simp add: search_one_word[OF assms(2) ne])
  then obtain nd where n: "findNode (toLowerCase p) (createTrie ws) = Some nd"
    and a: "x \<in> set (aggregate nd)"
    by (cases "findNode (toLowerCase p) (createTrie ws)") (auto simp: getWord_def set_uniq)
  have "keyedBelow (0 + length (toLowerCase p)) nd"
    using keyedBelow_createTrie n by (rule keyedBelow_findNode)
  then have "length p \<le> length x" using a keyedBelow_aggregate[of "length p" nd x]
    by (simp add: length_toLowerCase)
  moreover have "x \<in> set (aggregate (createTrie ws))" using aggregate_findNode[OF n] a by auto
  then have "x \<in> set ws" using createTrie_items by blast
  ultimately show ?thesis by blast
qed

text \<open>The empty trie matches nothing.\<close>

lemma getWord_emptyTrie: "w \<noteq> [] \<Longrightarrow> getWord w emptyTrie = []"
  by (cases w) (simp_all add: getWord_def emptyTrie_def)

lemma fold_filter_Nil: "fold (\<lambda>w' ret. filter (P w') ret) ws [] = []"
  by (induction ws) simp_all

lemma search_emptyTrie: "search s emptyTrie = []"
proof -
  let ?ws = "filter (\<lambda>w. \<not> length w < 1) (splitOn isWhiteSpace (toLowerCase s))"
  show ?thesis
  proof (cases ?ws)
    case Nil
    then show ?thesis by (simp add: search_def Let_def)
  next
    case (Cons w rest)
    then have "w \<in> set ?ws" by simp
    then have "w \<noteq> []" by auto
    then show ?thesis using Cons by (simp add: search_def Let_def getWord_emptyTrie fold_filter_Nil)
  qed
qed

section \<open>Properties of the graph library\<close>

lemma adjacent_iff:
  "adjacent g a b \<longleftrightarrow> hasNode g a \<and> ((b, a) \<in> set (edgeList g) \<or> (a, b) \<in> set (edgeList g))"
  by (force simp: adjacent_def orEmpty_def neighbors_def predecessors_def successors_def set_uniq)

lemma adjacent_hasNode: "closedEdges g \<Longrightarrow> adjacent g a b \<Longrightarrow> hasNode g b"
  by (force simp: adjacent_iff closedEdges_def)

lemma hasNode_setNode: "hasNode (setNode v l g) k \<longleftrightarrow> k = v \<or> hasNode g k"
  by (force simp: setNode_def hasNode_def)

lemma hasNode_ensureNode: "hasNode (ensureNode v g) k \<longleftrightarrow> k = v \<or> hasNode g k"
  by (auto simp: ensureNode_def hasNode_def)

lemma edgeList_setNode: "edgeList (setNode v l g) = edgeList g"
  by (simp add: setNode_def)

lemma isDirected_setNode: "isDirected (setNode v l g) = isDirected g"
  by (simp add: setNode_def)

lemma isDirected_setEdge: "isDirected (setEdge v w g) = isDirected g"
  by (simp add: setEdge_def ensureNode_def Let_def)

lemma setEdge_alt:
  "setEdge v w g =
     (if edgePair (isDirected g) v w \<in> set (edgeList g) then g
      else (ensureNode w (ensureNode v g))\<lparr>edgeList := edgeList g @ [edgePair (isDirected g) v w]\<rparr>)"
  by (simp add: setEdge_def edgePair_def Let_def)

lemma hasNode_edgeList_update: "hasNode (g\<lparr>edgeList := es\<rparr>) k = hasNode g k"
  by (simp add: hasNode_def)

lemma hasNode_setEdge:
  "hasNode (setEdge v w g) k \<longleftrightarrow>
     hasNode g k \<or> (edgePair (isDirected g) v w \<notin> set (edgeList g) \<and> (k = v \<or> k = w))"
  by (auto simp: setEdge_alt hasNode_edgeList_update hasNode_ensureNode)

lemma nodeList_setEdge:
  "hasNode g v \<Longrightarrow> hasNode g w \<Longrightarrow> nodeList (setEdge v w g) = nodeList g"
  by (simp add: setEdge_alt ensureNode_def)

lemma nodes_setEdge: "hasNode g v \<Longrightarrow> hasNode g w \<Longrightarrow> nodes (setEdge v w g) = nodes g"
  by (simp add: nodes_def nodeList_setEdge)

lemma edgeList_ensureNode: "edgeList (ensureNode v g) = edgeList g"
  by (simp add: ensureNode_def)

lemma edges_setEdge:
  "set (edgeList (setEdge v w g)) = insert (edgePair (isDirected g) v w) (set (edgeList g))"
  by (auto simp: setEdge_alt)

lemma edgePair_ends: "fst (edgePair d v w) \<in> {v, w} \<and> snd (edgePair d v w) \<in> {v, w}"
  by (simp add: edgePair_def)

lemma edgePair_cases: "edgePair d a b = (a, b) \<or> edgePair d a b = (b, a)"
  by (simp add: edgePair_def)

lemma closedEdges_setNode: "closedEdges g \<Longrightarrow> closedEdges (setNode v l g)"
  by (simp add: closedEdges_def edgeList_setNode hasNode_setNode)

lemma closedEdges_setEdge:
  assumes "closedEdges g"
  shows "closedEdges (setEdge v w g)"
proof (cases "edgePair (isDirected g) v w \<in> set (edgeList g)")
  case True
  then show ?thesis using assms by (simp add: setEdge_alt)
next
  case False
  have "hasNode (setEdge v w g) (fst e) \<and> hasNode (setEdge v w g) (snd e)"
    if "e \<in> set (edgeList (setEdge v w g))" for e
  proof (cases "e = edgePair (isDirected g) v w")
    case True
    then show ?thesis using False edgePair_ends[of "isDirected g" v w]
      by (auto simp: hasNode_setEdge)
  next
    case ne: False
    with that have "e \<in> set (edgeList g)" by (simp add: edges_setEdge)
    with assms show ?thesis by (auto simp: closedEdges_def hasNode_setEdge)
  qed
  then show ?thesis by (simp add: closedEdges_def)
qed

lemma closedEdges_newGraph: "closedEdges (newGraph d)"
  by (simp add: closedEdges_def newGraph_def)

lemma keys_relabel:
  "map (fst \<circ> (\<lambda>(k, x). if k = v then (k, Some l) else (k, x))) xs = map fst xs"
  by (induction xs) auto

lemma distinct_setNode:
  "distinct (map fst (nodeList g)) \<Longrightarrow> distinct (map fst (nodeList (setNode v l g)))"
  by (auto simp: setNode_def hasNode_def keys_relabel)

lemma keys_setNode: "set (nodes (setNode v l g)) = insert v (set (nodes g))"
  using hasNode_setNode[of v l g] by (auto simp: hasNode_def nodes_def)

lemma hasNode_map_of: "hasNode g k \<Longrightarrow> \<exists>l. map_of (nodeList g) k = Some l \<and> (k, l) \<in> set (nodeList g)"
proof -
  assume "hasNode g k"
  then have "k \<in> dom (map_of (nodeList g))" by (simp add: hasNode_def dom_map_of_conv_image_fst)
  then obtain l where "map_of (nodeList g) k = Some l" by auto
  then show ?thesis by (auto dest: map_of_SomeD)
qed

lemma fold_Un_inv:
  assumes "I s"
    and "\<And>x s. x \<in> set xs \<Longrightarrow> I s \<Longrightarrow> I (f x s) \<and> F (f x s) = F s \<union> G x"
  shows "I (fold f xs s) \<and> F (fold f xs s) = F s \<union> (\<Union>x \<in> set xs. G x)"
  using assms
proof (induction xs arbitrary: s)
  case Nil
  then show ?case by simp
next
  case (Cons x xs)
  have step: "I (f x s) \<and> F (f x s) = F s \<union> G x" using Cons.prems by simp
  have "I (fold f xs (f x s)) \<and> F (fold f xs (f x s)) = F (f x s) \<union> (\<Union>x \<in> set xs. G x)"
    using step Cons.prems(2) by (intro Cons.IH) simp_all
  with step show ?case by auto
qed

section \<open>Properties of the letter graph builder\<close>

subsection \<open>The keys of the letter nodes\<close>

lemma digitChar_inj: "a < 10 \<Longrightarrow> b < 10 \<Longrightarrow> digitChar a = digitChar b \<Longrightarrow> a = b"
proof -
  assume a: "a < 10" and b: "b < 10" and e: "digitChar a = digitChar b"
  have d: "distinct ''0123456789''" by simp
  have "a < length ''0123456789''" "b < length ''0123456789''" using a b by simp_all
  from nth_eq_iff_index_eq[OF d this] e show "a = b" by (simp add: digitChar_def)
qed

lemma digitChar_no_colon: "d < 10 \<Longrightarrow> digitChar d \<noteq> CHR '':''"
proof -
  assume "d < 10"
  then have "d < length ''0123456789''" by simp
  then have "''0123456789'' ! d \<in> set ''0123456789''" by (rule nth_mem)
  then show ?thesis unfolding digitChar_def by auto
qed

lemma decimal_small: "n < 10 \<Longrightarrow> decimal n = [digitChar n]"
  by (simp add: decimal.simps)

lemma decimal_large: "\<not> n < 10 \<Longrightarrow> decimal n = decimal (n div 10) @ [digitChar (n mod 10)]"
  by (subst decimal.simps) simp

lemma decimal_not_Nil: "decimal n \<noteq> []"
  by (cases "n < 10") (simp_all add: decimal_small decimal_large)

lemma decimal_no_colon: "CHR '':'' \<notin> set (decimal n)"
proof (induction n rule: decimal.induct)
  case (1 n)
  show ?case
  proof (cases "n < 10")
    case True
    then show ?thesis using digitChar_no_colon[of n] by (simp add: decimal_small)
  next
    case False
    then show ?thesis using 1 digitChar_no_colon[of "n mod 10"] by (simp add: decimal_large)
  qed
qed

lemma decimal_digits: "set (decimal n) \<subseteq> set ''0123456789''"
proof (induction n rule: decimal.induct)
  case (1 n)
  have d: "digitChar k \<in> set ''0123456789''" if "k < 10" for k
    unfolding digitChar_def using that by (intro nth_mem) simp
  show ?case
  proof (cases "n < 10")
    case True
    then show ?thesis using d[of n] by (simp add: decimal_small)
  next
    case False
    then show ?thesis using 1 d[of "n mod 10"] by (simp add: decimal_large)
  qed
qed

lemma decimal_inj: "decimal m = decimal n \<Longrightarrow> m = n"
proof (induction m arbitrary: n rule: decimal.induct)
  case (1 m)
  show ?case
  proof (cases "m < 10")
    case m: True
    show ?thesis
    proof (cases "n < 10")
      case True
      with m "1.prems" show ?thesis by (simp add: decimal_small digitChar_inj)
    next
      case False
      with m "1.prems" decimal_not_Nil[of "n div 10"] show ?thesis
        by (simp add: decimal_small decimal_large)
    qed
  next
    case m: False
    show ?thesis
    proof (cases "n < 10")
      case True
      with m "1.prems" decimal_not_Nil[of "m div 10"] show ?thesis
        by (simp add: decimal_small decimal_large)
    next
      case False
      with m "1.prems" have "decimal (m div 10) = decimal (n div 10)"
        and d: "digitChar (m mod 10) = digitChar (n mod 10)"
        by (simp_all add: decimal_large)
      then have "m div 10 = n div 10" using "1.IH"[OF m] by simp
      moreover have "m mod 10 = n mod 10" using d by (intro digitChar_inj) simp_all
      ultimately show ?thesis by (metis div_mult_mod_eq)
    qed
  qed
qed

lemma colon_split:
  assumes "CHR '':'' \<notin> set a" "CHR '':'' \<notin> set b" "a @ '':'' @ x = b @ '':'' @ y"
  shows "a = b \<and> x = y"
proof -
  have "takeWhile (\<lambda>c. c \<noteq> CHR '':'') (a @ '':'' @ x) = a" using assms(1) by (induction a) auto
  moreover have "takeWhile (\<lambda>c. c \<noteq> CHR '':'') (b @ '':'' @ y) = b" using assms(2) by (induction b) auto
  ultimately have "a = b" using assms(3) by simp
  with assms(3) show ?thesis by simp
qed

lemma letterKey_inj_small:
  assumes "i < 10" "j < 10" "letterKey i p l = letterKey j q m"
  shows "i = j \<and> p = q \<and> l = m"
proof -
  from assms have e: "digitChar i # decimal p @ '':'' @ l = digitChar j # decimal q @ '':'' @ m"
    by (simp add: letterKey_def decimal_small)
  then have ij: "i = j" using assms(1,2) by (simp add: digitChar_inj)
  from e have "decimal p @ '':'' @ l = decimal q @ '':'' @ m" by simp
  from colon_split[OF decimal_no_colon decimal_no_colon this] have "decimal p = decimal q" "l = m"
    by simp_all
  with ij decimal_inj show ?thesis by blast
qed

lemma letterKey_no_gt: "CHR ''>'' \<notin> set letter \<Longrightarrow> CHR ''>'' \<notin> set (letterKey i p letter)"
  using decimal_digits[of i] decimal_digits[of p] by (auto simp: letterKey_def)

lemma set_occurrences:
  "set (occurrences sides) = {(i, p). i < length sides \<and> p < length (sides ! i)}"
  by (auto simp: occurrences_def)

lemma distinct_concat_map:
  assumes "distinct xs" "\<And>x. x \<in> set xs \<Longrightarrow> distinct (f x)"
    "\<And>x y. x \<in> set xs \<Longrightarrow> y \<in> set xs \<Longrightarrow> x \<noteq> y \<Longrightarrow> set (f x) \<inter> set (f y) = {}"
  shows "distinct (concat (map f xs))"
  using assms
proof (induction xs)
  case Nil
  then show ?case by simp
next
  case (Cons a xs)
  have "distinct (concat (map f xs))" using Cons.prems by (intro Cons.IH) auto
  moreover have "set (f a) \<inter> set (f y) = {}" if "y \<in> set xs" for y
    using Cons.prems(1) Cons.prems(3)[of a y] that by auto
  ultimately show ?case using Cons.prems(2) by auto
qed

lemma distinct_occurrences: "distinct (occurrences sides)"
  unfolding occurrences_def
  by (rule distinct_concat_map) (auto simp: distinct_map inj_on_def)

lemma ten_sides_keys:
  assumes "length sides \<le> 10"
  shows "distinct (map (keyOf sides) (occurrences sides))"
proof -
  have "inj_on (keyOf sides) (set (occurrences sides))"
  proof (rule inj_onI)
    fix x y assume x: "x \<in> set (occurrences sides)" and y: "y \<in> set (occurrences sides)"
      and e: "keyOf sides x = keyOf sides y"
    have "fst x < 10" "fst y < 10" using x y assms by (auto simp: set_occurrences)
    from letterKey_inj_small[OF this] e show "x = y"
      by (simp add: keyOf_def prod_eq_iff)
  qed
  then show ?thesis using distinct_occurrences[of sides] by (simp add: distinct_map)
qed

subsection \<open>The invariant of the loops\<close>

lemma letterLabels_setNode:
  assumes "letterLabels sides g" "i < length sides" "p < length (sides ! i)"
  shows "letterLabels sides (setNode (letterKey i p (sides ! i ! p)) (sides ! i ! p) g)"
  using assms unfolding letterLabels_def setNode_def
  by (auto split: if_splits) blast+

lemma letterGraphInv_connectLetters:
  assumes "letterGraphInv sides g" "i < length sides" "p < length (sides ! i)"
    "j < length sides" "q < length (sides ! j)"
  shows "letterGraphInv sides (connectLetters sides i j p q g)"
proof -
  let ?k1 = "letterKey i p (sides ! i ! p)" and ?k2 = "letterKey j q (sides ! j ! q)"
  let ?g2 = "setNode ?k2 (sides ! j ! q) (setNode ?k1 (sides ! i ! p) g)"
  have n: "hasNode ?g2 ?k1" "hasNode ?g2 ?k2" by (simp_all add: hasNode_setNode)
  have "letterLabels sides ?g2"
    using assms by (intro letterLabels_setNode) (simp_all add: letterGraphInv_def)
  moreover have "nodeList (setEdge ?k1 ?k2 ?g2) = nodeList ?g2"
    using n by (rule nodeList_setEdge)
  ultimately have "letterLabels sides (setEdge ?k1 ?k2 ?g2)"
    by (simp add: letterLabels_def)
  moreover have "closedEdges (setEdge ?k1 ?k2 ?g2)"
    using assms(1) by (intro closedEdges_setEdge closedEdges_setNode) (simp add: letterGraphInv_def)
  moreover have "distinct (map fst (nodeList (setEdge ?k1 ?k2 ?g2)))"
    using assms(1) nodeList_setEdge[OF n] by (simp add: distinct_setNode letterGraphInv_def)
  moreover have "\<not> isDirected (setEdge ?k1 ?k2 ?g2)"
    using assms(1) by (simp add: isDirected_setEdge isDirected_setNode letterGraphInv_def)
  ultimately show ?thesis by (simp add: letterGraphInv_def connectLetters_def Let_def)
qed

lemma letterGraphInv_create: "letterGraphInv sides (createLetterBoxGraph sides)"
  unfolding createLetterBoxGraph_def
proof (rule fold_invariant[where Q = "\<lambda>i. i < length sides"])
  show "letterGraphInv sides (newGraph False)"
    by (simp add: letterGraphInv_def closedEdges_def letterLabels_def newGraph_def)
next
  fix i assume "i \<in> set [0..<length sides]" then show "i < length sides" by simp
next
  fix i g assume i: "i < length sides" and g: "letterGraphInv sides g"
  show "letterGraphInv sides (fold (\<lambda>j. fold (\<lambda>letterI. fold (\<lambda>letterJ. connectLetters sides i j letterI letterJ)
           [0..<length (sides ! j)]) [0..<length (sides ! i)]) [i + 1..<length sides] g)"
  proof (rule fold_invariant[where Q = "\<lambda>j. j < length sides"])
    show "letterGraphInv sides g" by (rule g)
  next
    fix j assume "j \<in> set [i + 1..<length sides]" then show "j < length sides" by simp
  next
    fix j g' assume j: "j < length sides" and g': "letterGraphInv sides g'"
    show "letterGraphInv sides (fold (\<lambda>letterI. fold (\<lambda>letterJ. connectLetters sides i j letterI letterJ)
           [0..<length (sides ! j)]) [0..<length (sides ! i)] g')"
    proof (rule fold_invariant[where Q = "\<lambda>p. p < length (sides ! i)"])
      show "letterGraphInv sides g'" by (rule g')
    next
      fix p assume "p \<in> set [0..<length (sides ! i)]" then show "p < length (sides ! i)" by simp
    next
      fix p g'' assume p: "p < length (sides ! i)" and g'': "letterGraphInv sides g''"
      show "letterGraphInv sides (fold (\<lambda>letterJ. connectLetters sides i j p letterJ)
           [0..<length (sides ! j)] g'')"
      proof (rule fold_invariant[where Q = "\<lambda>q. q < length (sides ! j)"])
        show "letterGraphInv sides g''" by (rule g'')
      next
        fix q assume "q \<in> set [0..<length (sides ! j)]" then show "q < length (sides ! j)" by simp
      next
        fix q h assume "q < length (sides ! j)" "letterGraphInv sides h"
        then show "letterGraphInv sides (connectLetters sides i j p q h)"
          using i j p by (intro letterGraphInv_connectLetters)
      qed
    qed
  qed
qed

lemma node_letter:
  assumes "letterLabels sides g" "hasNode g k"
  shows "\<exists>side \<in> set sides. \<exists>letter \<in> set side. node g k = Some letter"
proof -
  from hasNode_map_of[OF assms(2)] obtain l where
    l: "map_of (nodeList g) k = Some l" "(k, l) \<in> set (nodeList g)" by auto
  from assms(1) l(2) obtain i p where ip: "i < length sides" "p < length (sides ! i)"
    "l = Some (sides ! i ! p)" by (auto simp: letterLabels_def)
  then have "sides ! i \<in> set sides" "sides ! i ! p \<in> set (sides ! i)" by simp_all
  moreover have "node g k = Some (sides ! i ! p)" using l ip by (simp add: node_def)
  ultimately show ?thesis by blast
qed

lemma node_single:
  assumes "letterLabels sides g" "\<forall>side \<in> set sides. \<forall>letter \<in> set side. length letter = 1"
    "hasNode g k"
  shows "\<exists>l. node g k = Some l \<and> length l = 1"
proof -
  from hasNode_map_of[OF assms(3)] obtain l where
    l: "map_of (nodeList g) k = Some l" "(k, l) \<in> set (nodeList g)" by auto
  from assms(1) l(2) obtain i p where ip: "i < length sides" "p < length (sides ! i)"
    "l = Some (sides ! i ! p)" by (auto simp: letterLabels_def)
  then have "length (sides ! i ! p) = 1" using assms(2) by (meson nth_mem)
  with l ip show ?thesis by (simp add: node_def)
qed

subsection \<open>The nodes and edges of the letter graph\<close>

lemma connectLetters_items:
  assumes inv: "letterGraphInv sides g" and r: "i < length sides" "p < length (sides ! i)"
    "j < length sides" "q < length (sides ! j)"
  shows "letterGraphInv sides (connectLetters sides i j p q g) \<and>
         graphItems (connectLetters sides i j p q g) = graphItems g \<union> stepItems sides i j p q"
proof -
  let ?k1 = "letterKey i p (sides ! i ! p)" and ?k2 = "letterKey j q (sides ! j ! q)"
  let ?g2 = "setNode ?k2 (sides ! j ! q) (setNode ?k1 (sides ! i ! p) g)"
  have n: "hasNode ?g2 ?k1" "hasNode ?g2 ?k2" by (simp_all add: hasNode_setNode)
  have d: "\<not> isDirected ?g2" using inv by (simp add: isDirected_setNode letterGraphInv_def)
  have "set (nodes (setEdge ?k1 ?k2 ?g2)) = set (nodes g) \<union> {?k1, ?k2}"
    using nodes_setEdge[OF n] by (auto simp: keys_setNode)
  moreover have "set (edgeList (setEdge ?k1 ?k2 ?g2)) = set (edgeList g) \<union> {edgePair False ?k1 ?k2}"
    using d by (simp add: edges_setEdge edgeList_setNode)
  ultimately have "graphItems (connectLetters sides i j p q g) = graphItems g \<union> stepItems sides i j p q"
    by (auto simp: graphItems_def stepItems_def connectLetters_def Let_def keyOf_def)
  with letterGraphInv_connectLetters[OF inv r] show ?thesis by simp
qed

lemma createLetterBoxGraph_items:
  "graphItems (createLetterBoxGraph sides) =
     (\<Union>i \<in> set [0..<length sides]. \<Union>j \<in> set [i + 1..<length sides].
        \<Union>p \<in> set [0..<length (sides ! i)]. \<Union>q \<in> set [0..<length (sides ! j)].
          stepItems sides i j p q)"
proof -
  let ?I = "letterGraphInv sides"
  let ?F = "graphItems :: string Graph \<Rightarrow> _"
  let ?G3 = "\<lambda>i j p. \<Union>q \<in> set [0..<length (sides ! j)]. stepItems sides i j p q"
  let ?G2 = "\<lambda>i j. \<Union>p \<in> set [0..<length (sides ! i)]. ?G3 i j p"
  let ?G1 = "\<lambda>i. \<Union>j \<in> set [i + 1..<length sides]. ?G2 i j"
  let ?f3 = "\<lambda>i j p. fold (\<lambda>q. connectLetters sides i j p q) [0..<length (sides ! j)]"
  let ?f2 = "\<lambda>i j. fold (\<lambda>p. ?f3 i j p) [0..<length (sides ! i)]"
  let ?f1 = "\<lambda>i. fold (\<lambda>j. ?f2 i j) [i + 1..<length sides]"
  let ?new = "newGraph False :: string Graph"
  have l3: "?I (?f3 i j p g) \<and> ?F (?f3 i j p g) = ?F g \<union> ?G3 i j p"
    if "?I g" "i < length sides" "j < length sides" "p < length (sides ! i)" for i j p g
  proof (rule fold_Un_inv[where I = ?I and F = ?F and G = "stepItems sides i j p"])
    show "?I g" by fact
  next
    fix q h assume "q \<in> set [0..<length (sides ! j)]" "?I h"
    then show "?I (connectLetters sides i j p q h) \<and>
        ?F (connectLetters sides i j p q h) = ?F h \<union> stepItems sides i j p q"
      using that by (intro connectLetters_items) simp_all
  qed
  have l2: "?I (?f2 i j g) \<and> ?F (?f2 i j g) = ?F g \<union> ?G2 i j"
    if "?I g" "i < length sides" "j < length sides" for i j g
  proof (rule fold_Un_inv[where I = ?I and F = ?F and G = "?G3 i j"])
    show "?I g" by fact
  next
    fix p h assume "p \<in> set [0..<length (sides ! i)]" "?I h"
    then show "?I (?f3 i j p h) \<and> ?F (?f3 i j p h) = ?F h \<union> ?G3 i j p"
      using that by (intro l3) simp_all
  qed
  have l1: "?I (?f1 i g) \<and> ?F (?f1 i g) = ?F g \<union> ?G1 i"
    if "?I g" "i < length sides" for i g
  proof (rule fold_Un_inv[where I = ?I and F = ?F and G = "?G2 i"])
    show "?I g" by fact
  next
    fix j h assume "j \<in> set [i + 1..<length sides]" "?I h"
    then show "?I (?f2 i j h) \<and> ?F (?f2 i j h) = ?F h \<union> ?G2 i j"
      using that by (intro l2) simp_all
  qed
  have "?I (fold ?f1 [0..<length sides] ?new) \<and>
      ?F (fold ?f1 [0..<length sides] ?new) = ?F ?new \<union> (\<Union>i \<in> set [0..<length sides]. ?G1 i)"
  proof (rule fold_Un_inv[where I = ?I and F = ?F and G = ?G1])
    show "?I ?new"
      by (simp add: letterGraphInv_def closedEdges_def letterLabels_def newGraph_def)
  next
    fix i h assume "i \<in> set [0..<length sides]" "?I h"
    then show "?I (?f1 i h) \<and> ?F (?f1 i h) = ?F h \<union> ?G1 i"
      by (intro l1) simp_all
  qed
  moreover have "createLetterBoxGraph sides = fold ?f1 [0..<length sides] ?new"
    by (simp add: createLetterBoxGraph_def)
  moreover have "?F ?new = {}" by (simp add: graphItems_def nodes_def newGraph_def)
  ultimately show ?thesis by simp
qed

lemma item_iff:
  "x \<in> graphItems (createLetterBoxGraph sides) \<longleftrightarrow>
     (\<exists>i j p q. i < j \<and> j < length sides \<and> p < length (sides ! i) \<and> q < length (sides ! j) \<and>
        x \<in> stepItems sides i j p q)"
proof
  assume "x \<in> graphItems (createLetterBoxGraph sides)"
  then obtain i j p q where "i \<in> set [0..<length sides]" "j \<in> set [i + 1..<length sides]"
    "p \<in> set [0..<length (sides ! i)]" "q \<in> set [0..<length (sides ! j)]"
    "x \<in> stepItems sides i j p q"
    unfolding createLetterBoxGraph_items by blast
  then have "i < j \<and> j < length sides \<and> p < length (sides ! i) \<and> q < length (sides ! j) \<and>
      x \<in> stepItems sides i j p q" by simp
  then show "\<exists>i j p q. i < j \<and> j < length sides \<and> p < length (sides ! i) \<and>
      q < length (sides ! j) \<and> x \<in> stepItems sides i j p q" by blast
next
  assume "\<exists>i j p q. i < j \<and> j < length sides \<and> p < length (sides ! i) \<and>
      q < length (sides ! j) \<and> x \<in> stepItems sides i j p q"
  then obtain i j p q where "i < j" "j < length sides" "p < length (sides ! i)"
    "q < length (sides ! j)" "x \<in> stepItems sides i j p q" by blast
  then have "i \<in> set [0..<length sides]" "j \<in> set [i + 1..<length sides]"
    "p \<in> set [0..<length (sides ! i)]" "q \<in> set [0..<length (sides ! j)]"
    "x \<in> stepItems sides i j p q" by simp_all
  then show "x \<in> graphItems (createLetterBoxGraph sides)"
    unfolding createLetterBoxGraph_items by blast
qed

lemma node_iff:
  "k \<in> set (nodes (createLetterBoxGraph sides)) \<longleftrightarrow>
     (\<exists>i j p q. i < j \<and> j < length sides \<and> p < length (sides ! i) \<and> q < length (sides ! j) \<and>
        (k = keyOf sides (i, p) \<or> k = keyOf sides (j, q)))"
  using item_iff[of "Inl k" sides] by (auto simp: graphItems_def stepItems_def)

lemma edge_iff:
  "e \<in> set (edgeList (createLetterBoxGraph sides)) \<longleftrightarrow>
     (\<exists>i j p q. i < j \<and> j < length sides \<and> p < length (sides ! i) \<and> q < length (sides ! j) \<and>
        e = edgePair False (keyOf sides (i, p)) (keyOf sides (j, q)))"
  using item_iff[of "Inr e" sides] by (auto simp: graphItems_def stepItems_def)

lemma nodes_connected:
  "set (nodes (createLetterBoxGraph sides)) =
     keyOf sides ` {occ \<in> set (occurrences sides). connected sides occ}"
proof (intro set_eqI iffI)
  fix k assume "k \<in> set (nodes (createLetterBoxGraph sides))"
  then obtain i j p q where r: "i < j" "j < length sides" "p < length (sides ! i)"
    "q < length (sides ! j)" and k: "k = keyOf sides (i, p) \<or> k = keyOf sides (j, q)"
    unfolding node_iff by blast
  have "(i, p) \<in> set (occurrences sides)" "(j, q) \<in> set (occurrences sides)"
    using r by (simp_all add: set_occurrences)
  moreover have "connected sides (i, p)" unfolding connected_def
    using r by (intro bexI[of _ j]) auto
  moreover have "connected sides (j, q)" unfolding connected_def
    using r by (intro bexI[of _ i]) auto
  ultimately show "k \<in> keyOf sides ` {occ \<in> set (occurrences sides). connected sides occ}"
    using k by blast
next
  fix k assume "k \<in> keyOf sides ` {occ \<in> set (occurrences sides). connected sides occ}"
  then obtain i p where k: "k = keyOf sides (i, p)" and o: "(i, p) \<in> set (occurrences sides)"
    and c: "connected sides (i, p)" by auto
  from c obtain j where j: "j < length sides" "j \<noteq> i" "0 < length (sides ! j)"
    by (auto simp: connected_def)
  from o have ip: "i < length sides" "p < length (sides ! i)" by (simp_all add: set_occurrences)
  show "k \<in> set (nodes (createLetterBoxGraph sides))"
  proof (cases "i < j")
    case True
    then show ?thesis unfolding node_iff using j ip k
      by (intro exI[of _ i] exI[of _ j] exI[of _ p] exI[of _ 0]) simp
  next
    case False
    then have "j < i" using j(2) by simp
    then show ?thesis unfolding node_iff using j ip k
      by (intro exI[of _ j] exI[of _ i] exI[of _ 0] exI[of _ p]) simp
  qed
qed

lemma letterGraph_adjacent:
  assumes inj: "inj_on (keyOf sides) (set (occurrences sides))"
    and o1: "o1 \<in> set (occurrences sides)" and o2: "o2 \<in> set (occurrences sides)"
  shows "adjacent (createLetterBoxGraph sides) (keyOf sides o1) (keyOf sides o2) \<longleftrightarrow> fst o1 \<noteq> fst o2"
proof
  let ?g = "createLetterBoxGraph sides"
  assume "adjacent ?g (keyOf sides o1) (keyOf sides o2)"
  then have "(keyOf sides o2, keyOf sides o1) \<in> set (edgeList ?g) \<or>
      (keyOf sides o1, keyOf sides o2) \<in> set (edgeList ?g)"
    by (simp add: adjacent_iff)
  then obtain i j p q where r: "i < j" "j < length sides" "p < length (sides ! i)"
    "q < length (sides ! j)"
    and e: "(keyOf sides o2, keyOf sides o1) = edgePair False (keyOf sides (i, p)) (keyOf sides (j, q)) \<or>
            (keyOf sides o1, keyOf sides o2) = edgePair False (keyOf sides (i, p)) (keyOf sides (j, q))"
    unfolding edge_iff by blast
  have occ: "(i, p) \<in> set (occurrences sides)" "(j, q) \<in> set (occurrences sides)"
    using r by (simp_all add: set_occurrences)
  from e edgePair_cases[of False "keyOf sides (i, p)" "keyOf sides (j, q)"]
  have "(keyOf sides o1 = keyOf sides (i, p) \<and> keyOf sides o2 = keyOf sides (j, q)) \<or>
        (keyOf sides o1 = keyOf sides (j, q) \<and> keyOf sides o2 = keyOf sides (i, p))"
    by auto
  then have "(o1 = (i, p) \<and> o2 = (j, q)) \<or> (o1 = (j, q) \<and> o2 = (i, p))"
    using inj o1 o2 occ by (auto dest: inj_onD)
  then show "fst o1 \<noteq> fst o2" using r(1) by auto
next
  let ?g = "createLetterBoxGraph sides"
  assume ne: "fst o1 \<noteq> fst o2"
  obtain i p where o1': "o1 = (i, p)" by (cases o1)
  obtain j q where o2': "o2 = (j, q)" by (cases o2)
  have r: "i < length sides" "p < length (sides ! i)" "j < length sides" "q < length (sides ! j)"
    using o1 o2 by (simp_all add: o1' o2' set_occurrences)
  have "connected sides o1" unfolding connected_def o1'
    using r ne o1' o2' by (intro bexI[of _ j]) auto
  then have "keyOf sides o1 \<in> set (nodes ?g)" unfolding nodes_connected using o1 by blast
  then have n: "hasNode ?g (keyOf sides o1)" by (simp add: hasNode_def nodes_def)
  have "edgePair False (keyOf sides o1) (keyOf sides o2) \<in> set (edgeList ?g) \<or>
        edgePair False (keyOf sides o2) (keyOf sides o1) \<in> set (edgeList ?g)"
  proof (cases "i < j")
    case True
    then have "edgePair False (keyOf sides o1) (keyOf sides o2) \<in> set (edgeList ?g)"
      unfolding edge_iff o1' o2' using r by blast
    then show ?thesis by simp
  next
    case False
    then have "j < i" using ne o1' o2' by simp
    then have "edgePair False (keyOf sides o2) (keyOf sides o1) \<in> set (edgeList ?g)"
      unfolding edge_iff o1' o2' using r by blast
    then show ?thesis by simp
  qed
  then have "(keyOf sides o2, keyOf sides o1) \<in> set (edgeList ?g) \<or>
      (keyOf sides o1, keyOf sides o2) \<in> set (edgeList ?g)"
    using edgePair_cases[of False "keyOf sides o1" "keyOf sides o2"]
      edgePair_cases[of False "keyOf sides o2" "keyOf sides o1"] by auto
  with n show "adjacent ?g (keyOf sides o1) (keyOf sides o2)" by (simp add: adjacent_iff)
qed

lemma letterGraph_label:
  assumes inj: "inj_on (keyOf sides) (set (occurrences sides))"
    and o: "occ \<in> set (occurrences sides)" and c: "connected sides occ"
  shows "node (createLetterBoxGraph sides) (keyOf sides occ) = Some (sides ! fst occ ! snd occ)"
proof -
  let ?g = "createLetterBoxGraph sides"
  have "keyOf sides occ \<in> set (nodes ?g)" unfolding nodes_connected using o c by blast
  then have "hasNode ?g (keyOf sides occ)" by (simp add: hasNode_def nodes_def)
  from hasNode_map_of[OF this] obtain l where
    l: "map_of (nodeList ?g) (keyOf sides occ) = Some l" "(keyOf sides occ, l) \<in> set (nodeList ?g)"
    by auto
  have "letterLabels sides ?g" using letterGraphInv_create[of sides] by (simp add: letterGraphInv_def)
  with l(2) obtain i p where ip: "i < length sides" "p < length (sides ! i)"
    "keyOf sides occ = letterKey i p (sides ! i ! p)" "l = Some (sides ! i ! p)"
    unfolding letterLabels_def by blast
  have "(i, p) \<in> set (occurrences sides)" using ip by (simp add: set_occurrences)
  moreover have "keyOf sides occ = keyOf sides (i, p)" using ip(3) by (simp add: keyOf_def)
  ultimately have "occ = (i, p)" using inj o by (auto dest: inj_onD)
  with l(1) ip(4) show ?thesis by (simp add: node_def)
qed

text \<open>
  C3, as the code has it. Let the keys of the letter occurrences of the layout be
  pairwise distinct, as they are in every layout of at most ten sides (lemma
  \<open>ten_sides_keys\<close>). Then the letter graph has exactly one node for every letter
  occurrence that has a letter on some other side, and none for the others; the node
  of an occurrence is labelled with its letter; and the nodes of two letter
  occurrences are adjacent if and only if the occurrences lie on different sides.
\<close>

theorem createLetterBoxGraph_nodes_edges:
  assumes keys: "distinct (map (keyOf sides) (occurrences sides))"
  shows "nodeCount (createLetterBoxGraph sides)
           = length (filter (connected sides) (occurrences sides)) \<and>
         set (nodes (createLetterBoxGraph sides))
           = keyOf sides ` {occ \<in> set (occurrences sides). connected sides occ} \<and>
         (\<forall>occ \<in> set (occurrences sides). connected sides occ \<longrightarrow>
            node (createLetterBoxGraph sides) (keyOf sides occ) = Some (sides ! fst occ ! snd occ)) \<and>
         (\<forall>o1 \<in> set (occurrences sides). \<forall>o2 \<in> set (occurrences sides).
            adjacent (createLetterBoxGraph sides) (keyOf sides o1) (keyOf sides o2)
              \<longleftrightarrow> fst o1 \<noteq> fst o2)"
proof -
  let ?g = "createLetterBoxGraph sides"
  let ?C = "{occ \<in> set (occurrences sides). connected sides occ}"
  have inj: "inj_on (keyOf sides) (set (occurrences sides))"
    using keys by (simp add: distinct_map)
  have "distinct (nodes ?g)"
    using letterGraphInv_create[of sides] by (simp add: letterGraphInv_def nodes_def)
  then have "card (set (nodes ?g)) = length (nodes ?g)" by (rule distinct_card)
  then have "nodeCount ?g = card (set (nodes ?g))"
    by (simp add: nodeCount_def nodes_def)
  also have "\<dots> = card (keyOf sides ` ?C)" by (simp add: nodes_connected)
  also have "\<dots> = card ?C" using inj by (intro card_image) (auto simp: inj_on_def)
  also have "?C = set (filter (connected sides) (occurrences sides))" by auto
  also have "card \<dots> = length (filter (connected sides) (occurrences sides))"
    using distinct_occurrences[of sides] by (intro distinct_card) simp
  finally have count: "nodeCount ?g = length (filter (connected sides) (occurrences sides))" .
  show ?thesis
    using count nodes_connected[of sides] letterGraph_label[OF inj] letterGraph_adjacent[OF inj]
    by blast
qed

theorem createLetterBoxGraph_nodes_edges_witness:
  "distinct (map (keyOf [[''a'', ''b''], [''c'', ''d'']]) (occurrences [[''a'', ''b''], [''c'', ''d'']])) \<and>
   nodeCount (createLetterBoxGraph [[''a'', ''b''], [''c'', ''d'']]) = 4 \<and>
   node (createLetterBoxGraph [[''a'', ''b''], [''c'', ''d'']]) ''11:d'' = Some ''d'' \<and>
   adjacent (createLetterBoxGraph [[''a'', ''b''], [''c'', ''d'']]) ''00:a'' ''10:c'' \<and>
   \<not> adjacent (createLetterBoxGraph [[''a'', ''b''], [''c'', ''d'']]) ''00:a'' ''01:b''"
proof -
  let ?s = "[[''a'', ''b''], [''c'', ''d'']]"
  have keys: "distinct (map (keyOf ?s) (occurrences ?s))" by code_simp
  note t = createLetterBoxGraph_nodes_edges [OF keys]
  have occ: "occurrences ?s = [(0, 0), (0, 1), (1, 0), (1, 1)]" by code_simp
  have k: "keyOf ?s (0, 0) = ''00:a''" "keyOf ?s (0, 1) = ''01:b''" "keyOf ?s (1, 0) = ''10:c''"
    "keyOf ?s (1, 1) = ''11:d''"
    by code_simp+
  have c: "connected ?s (1, 1)" by code_simp
  have n: "length (filter (connected ?s) (occurrences ?s)) = 4" by code_simp
  have "nodeCount (createLetterBoxGraph ?s) = 4" using t n by simp
  moreover have "node (createLetterBoxGraph ?s) (keyOf ?s (1, 1)) = Some ''d''"
    using t c occ by simp
  moreover have "adjacent (createLetterBoxGraph ?s) (keyOf ?s (0, 0)) (keyOf ?s (1, 0))"
    using t occ by simp
  moreover have "\<not> adjacent (createLetterBoxGraph ?s) (keyOf ?s (0, 0)) (keyOf ?s (0, 1))"
    using t occ by simp
  ultimately show ?thesis using keys k by simp
qed

text \<open>
  C3, as the claim has it, promises a node for every letter occurrence and an edge
  only between different sides. A node is made only together with an edge: the one
  letter of a layout of one side gets no node. And the key of a node is the side
  index and the position written one after the other: in the layout of twelve sides
  above, twelve occurrences give eleven nodes, and the node \<open>110:a\<close> is adjacent to
  itself.
\<close>

theorem createLetterBoxGraph_misses_nodes:
  "occurrences [[''a'']] = [(0, 0)] \<and> nodes (createLetterBoxGraph [[''a'']]) = [] \<and>
   length (occurrences collidingSides) = 12 \<and>
   nodeCount (createLetterBoxGraph collidingSides) = 11 \<and>
   keyOf collidingSides (1, 10) = ''110:a'' \<and> keyOf collidingSides (11, 0) = ''110:a'' \<and>
   adjacent (createLetterBoxGraph collidingSides) ''110:a'' ''110:a''"
  by code_simp

section \<open>Properties of the word finder\<close>

lemma isWalk_snoc:
  "isWalk g (p @ [k]) \<longleftrightarrow> isWalk g p \<and> (p = [] \<or> adjacent g (last p) k)"
  by (induction g p rule: isWalk.induct) auto

lemma okPath_snoc:
  "closedEdges g \<Longrightarrow> okPath g (p @ [a]) \<Longrightarrow> adjacent g a b \<Longrightarrow> okPath g ((p @ [a]) @ [b])"
  unfolding okPath_def using adjacent_hasNode isWalk_snoc[of g "p @ [a]" b] by auto

lemma isWalk_nth:
  "isWalk g p \<Longrightarrow> Suc i < length p \<Longrightarrow> adjacent g (p ! i) (p ! Suc i)"
proof (induction g p arbitrary: i rule: isWalk.induct)
  case (3 g a b rest)
  then show ?case by (cases i) auto
qed auto

lemma visit_found:
  "closedEdges g \<Longrightarrow> visitNode d k path g t st = Some st' \<Longrightarrow> okPath g (path @ [k]) \<Longrightarrow>
           \<forall>w \<in> set (snd st). found g w \<Longrightarrow> \<forall>w \<in> set (snd st'). found g w"
  "closedEdges g \<Longrightarrow> visitNeighbors d ks path g t st = Some st' \<Longrightarrow>
           \<forall>k \<in> set ks. okPath g (path @ [k]) \<Longrightarrow>
           \<forall>w \<in> set (snd st). found g w \<Longrightarrow> \<forall>w \<in> set (snd st'). found g w"
proof (induction d k path g t st and d ks path g t st arbitrary: st' and st'
        rule: visitNode_visitNeighbors.induct)
  case (1 nodeKey path graph trie st)
  then show ?case by simp
next
  case (2 depth nodeKey path graph trie seenPaths words)
  note ce = "2.prems"(1) and run = "2.prems"(2) and ok = "2.prems"(3) and fw = "2.prems"(4)
  let ?path = "path @ [nodeKey]"
  let ?prefix = "prefixOf graph ?path"
  let ?words = "if isWord ?prefix trie then words @ [\<lparr>word = ?prefix, nodeKeys = ?path\<rparr>] else words"
  show ?case
  proof (cases "join '' '' ?path \<in> seenPaths")
    case True
    with run fw show ?thesis by simp
  next
    case unseen: False
    have w: "\<forall>w \<in> set ?words. found graph w"
      using ok fw by (auto simp: found_def isWord_def split: if_splits)
    show ?thesis
    proof (cases "isPrefix ?prefix trie")
      case False
      with run unseen w show ?thesis by (auto simp: Let_def)
    next
      case True
      have call: "visitNeighbors depth (orEmpty (neighbors graph nodeKey)) ?path graph trie
          (insert (join '' '' ?path) seenPaths, ?words) = Some st'"
        using run unseen True by (simp add: Let_def)
      have nb: "\<forall>k \<in> set (orEmpty (neighbors graph nodeKey)). okPath graph (?path @ [k])"
        using okPath_snoc[OF ce ok] by (simp add: adjacent_def)
      show ?thesis
        using "2.IH"[OF refl refl refl unseen refl refl True ce call nb] w by simp
    qed
  qed
next
  case (3 depth path graph trie st)
  then show ?case by simp
next
  case (4 depth neighborKey rest path graph trie st)
  note ce = "4.prems"(1) and run = "4.prems"(2) and ok = "4.prems"(3) and fw = "4.prems"(4)
  from run obtain st1 where
    a: "visitNode depth neighborKey path graph trie st = Some st1" and
    b: "visitNeighbors depth rest path graph trie st1 = Some st'"
    by (auto split: option.splits)
  have "\<forall>w \<in> set (snd st1). found graph w"
    using "4.IH"(1)[OF ce a _ fw] ok by simp
  then show ?case using "4.IH"(2)[OF a ce b] ok by simp
qed

lemma findWordsFrom_found:
  "closedEdges g \<Longrightarrow> findWordsFrom d ns g t ws = Some ws' \<Longrightarrow> \<forall>n \<in> set ns. hasNode g n \<Longrightarrow>
     \<forall>w \<in> set ws. found g w \<Longrightarrow> \<forall>w \<in> set ws'. found g w"
proof (induction ns arbitrary: ws)
  case Nil
  then show ?case by simp
next
  case (Cons n ns)
  from Cons.prems(2) obtain seen ws1 where
    a: "visitNode d n [] g t ({}, ws) = Some (seen, ws1)" and
    b: "findWordsFrom d ns g t ws1 = Some ws'"
    by (auto split: option.splits prod.splits)
  have "okPath g ([] @ [n])" using Cons.prems(3) by (simp add: okPath_def)
  from visit_found(1)[OF Cons.prems(1) a this] Cons.prems(4)
  have "\<forall>w \<in> set ws1. found g w" by simp
  then show ?case using Cons.IH[OF Cons.prems(1) b] Cons.prems(3) by simp
qed

lemma findWords_found:
  "closedEdges g \<Longrightarrow> findWords d t g = Some ws \<Longrightarrow> w \<in> set ws \<Longrightarrow> found g w"
  using findWordsFrom_found[of g d "nodes g" t "[]" ws]
  by (auto simp: findWords_def nodes_def hasNode_def)

lemma length_prefixOf:
  assumes "\<forall>k \<in> set ks. \<exists>l. node g k = Some l \<and> length l = 1"
  shows "length (prefixOf g ks) = length ks"
  using assms by (induction ks) (auto simp: prefixOf_def)

text \<open>
  C7. On the letter graph of a layout of single letters, every word the word finder
  returns has as many characters as node keys, each node key is adjacent in the
  letter graph to the one before it, and the text has at least three characters.
\<close>

theorem findWords_walks:
  assumes single: "\<forall>side \<in> set sides. \<forall>letter \<in> set side. length letter = 1"
    and run: "findWords depth trie (createLetterBoxGraph sides) = Some ws"
    and w: "w \<in> set ws"
  shows "length (word w) = length (nodeKeys w) \<and>
         (\<forall>i. Suc i < length (nodeKeys w) \<longrightarrow>
            adjacent (createLetterBoxGraph sides) (nodeKeys w ! i) (nodeKeys w ! Suc i)) \<and>
         3 \<le> length (word w)"
proof -
  let ?g = "createLetterBoxGraph sides"
  have inv: "letterGraphInv sides ?g" by (rule letterGraphInv_create)
  then have ce: "closedEdges ?g" and ll: "letterLabels sides ?g"
    by (simp_all add: letterGraphInv_def)
  have f: "found ?g w" using ce run w by (rule findWords_found)
  then have ok: "okPath ?g (nodeKeys w)" and tx: "word w = prefixOf ?g (nodeKeys w)"
    and three: "3 \<le> length (word w)"
    by (auto simp: found_def)
  have "\<forall>k \<in> set (nodeKeys w). \<exists>l. node ?g k = Some l \<and> length l = 1"
    using ok node_single[OF ll single] by (simp add: okPath_def)
  then have "length (word w) = length (nodeKeys w)" using tx by (simp add: length_prefixOf)
  moreover have "adjacent ?g (nodeKeys w ! i) (nodeKeys w ! Suc i)"
    if "Suc i < length (nodeKeys w)" for i
    using ok that by (simp add: okPath_def isWalk_nth)
  ultimately show ?thesis using three by simp
qed

theorem findWords_walks_witness:
  "findWords 4 (createTrie [''abc'', ''bab'']) (createLetterBoxGraph [[''a''], [''b''], [''c'']])
     = Some [\<lparr>word = ''abc'', nodeKeys = [''00:a'', ''10:b'', ''20:c'']\<rparr>,
             \<lparr>word = ''bab'', nodeKeys = [''10:b'', ''00:a'', ''10:b'']\<rparr>] \<and>
   length ''abc'' = length [''00:a'', ''10:b'', ''20:c''] \<and>
   adjacent (createLetterBoxGraph [[''a''], [''b''], [''c'']]) ''00:a'' ''10:b'' \<and>
   adjacent (createLetterBoxGraph [[''a''], [''b''], [''c'']]) ''10:b'' ''20:c''"
proof -
  let ?sides = "[[''a''], [''b''], [''c'']]"
  let ?w = "\<lparr>word = ''abc'', nodeKeys = [''00:a'', ''10:b'', ''20:c'']\<rparr>"
  let ?ws = "[?w, \<lparr>word = ''bab'', nodeKeys = [''10:b'', ''00:a'', ''10:b'']\<rparr>]"
  have single: "\<forall>side \<in> set ?sides. \<forall>letter \<in> set side. length letter = 1" by simp
  have run: "findWords 4 (createTrie [''abc'', ''bab'']) (createLetterBoxGraph ?sides) = Some ?ws"
    by code_simp
  have mem: "?w \<in> set ?ws" by simp
  note t = findWords_walks [OF single run mem]
  from t have adj: "\<And>i. Suc i < length (nodeKeys ?w) \<Longrightarrow>
      adjacent (createLetterBoxGraph ?sides) (nodeKeys ?w ! i) (nodeKeys ?w ! Suc i)"
    by blast
  have "adjacent (createLetterBoxGraph ?sides) ''00:a'' ''10:b''"
    using adj [of 0] by simp
  moreover have "adjacent (createLetterBoxGraph ?sides) ''10:b'' ''20:c''"
    using adj [of 1] by simp
  ultimately show ?thesis using run by simp
qed

lemma okPath_length:
  "singleLabels g \<Longrightarrow> okPath g p \<Longrightarrow> length (prefixOf g p) = length p"
  by (intro length_prefixOf) (auto simp: singleLabels_def okPath_def)

lemma okPath_no_white:
  "singleLabels g \<Longrightarrow> okPath g p \<Longrightarrow> \<not> list_ex isWhiteSpace (prefixOf g p)"
proof -
  assume sl: "singleLabels g" and ok: "okPath g p"
  have "\<forall>k \<in> set p. \<exists>l. node g k = Some l \<and> \<not> list_ex isWhiteSpace l"
    using sl ok by (auto simp: singleLabels_def okPath_def)
  then show ?thesis by (induction p) (auto simp: prefixOf_def)
qed

lemma visit_returns:
  "closedEdges g \<Longrightarrow> singleLabels g \<Longrightarrow>
     \<forall>p. \<not> list_ex isWhiteSpace p \<longrightarrow> isPrefix p t \<longrightarrow> length p \<le> L \<Longrightarrow>
     okPath g (path @ [k]) \<Longrightarrow> length path \<le> L \<Longrightarrow> L + 2 \<le> d + length path \<Longrightarrow>
     \<exists>st'. visitNode d k path g t st = Some st'"
  "closedEdges g \<Longrightarrow> singleLabels g \<Longrightarrow>
     \<forall>p. \<not> list_ex isWhiteSpace p \<longrightarrow> isPrefix p t \<longrightarrow> length p \<le> L \<Longrightarrow>
     \<forall>k \<in> set ks. okPath g (path @ [k]) \<Longrightarrow> length path \<le> L \<Longrightarrow> L + 2 \<le> d + length path \<Longrightarrow>
     \<exists>st'. visitNeighbors d ks path g t st = Some st'"
proof (induction d k path g t st and d ks path g t st
        rule: visitNode_visitNeighbors.induct)
  case (1 nodeKey path graph trie st)
  then show ?case by simp
next
  case (2 depth nodeKey path graph trie seenPaths words)
  note ce = "2.prems"(1) and sl = "2.prems"(2) and tb = "2.prems"(3) and ok = "2.prems"(4)
    and len = "2.prems"(5) and dep = "2.prems"(6)
  let ?path = "path @ [nodeKey]"
  let ?prefix = "prefixOf graph ?path"
  show ?case
  proof (cases "join '' '' ?path \<in> seenPaths")
    case True
    then show ?thesis by simp
  next
    case unseen: False
    show ?thesis
    proof (cases "isPrefix ?prefix trie")
      case False
      with unseen show ?thesis by (simp add: Let_def)
    next
      case True
      have "length ?prefix \<le> L" using tb True okPath_no_white[OF sl ok] by blast
      then have len': "length ?path \<le> L" using okPath_length[OF sl ok] by simp
      have dep': "L + 2 \<le> depth + length ?path" using dep by simp
      have nb: "\<forall>k \<in> set (orEmpty (neighbors graph nodeKey)). okPath graph (?path @ [k])"
        using okPath_snoc[OF ce ok] by (simp add: adjacent_def)
      from "2.IH"[OF refl refl refl unseen refl refl True ce sl tb nb len' dep']
      show ?thesis using unseen True by (simp add: Let_def)
    qed
  qed
next
  case (3 depth path graph trie st)
  then show ?case by simp
next
  case (4 depth neighborKey rest path graph trie st)
  note ce = "4.prems"(1) and sl = "4.prems"(2) and tb = "4.prems"(3) and ok = "4.prems"(4)
    and len = "4.prems"(5) and dep = "4.prems"(6)
  from "4.IH"(1)[OF ce sl tb _ len dep] ok obtain st1 where
    a: "visitNode depth neighborKey path graph trie st = Some st1" by auto
  from "4.IH"(2)[OF a ce sl tb _ len dep] ok obtain st2 where
    "visitNeighbors depth rest path graph trie st1 = Some st2" by auto
  with a show ?case by simp
qed

lemma findWordsFrom_returns:
  assumes "closedEdges g" "singleLabels g"
    "\<forall>p. \<not> list_ex isWhiteSpace p \<longrightarrow> isPrefix p t \<longrightarrow> length p \<le> L" "L + 2 \<le> d"
  shows "\<forall>n \<in> set ns. hasNode g n \<Longrightarrow> \<exists>ws'. findWordsFrom d ns g t ws = Some ws'"
proof (induction ns arbitrary: ws)
  case Nil
  then show ?case by simp
next
  case (Cons n ns)
  have "okPath g ([] @ [n])" using Cons.prems by (simp add: okPath_def)
  from visit_returns(1)[OF assms(1,2,3) this, of d "({}, ws)"] assms(4)
  obtain seen ws1 where "visitNode d n [] g t ({}, ws) = Some (seen, ws1)" by auto
  moreover obtain ws' where "findWordsFrom d ns g t ws1 = Some ws'"
    using Cons.IH[of ws1] Cons.prems by auto
  ultimately show ?case by simp
qed

text \<open>
  The depth bound of the model is no restriction on a layout of single letters that
  are no white space: the walk stops where the trie knows no word with the prefix, so
  any bound above the longest word of the dictionary plus one lets the word finder
  return. The trie splits a query at white space, so with a letter that is white
  space a prefix can be continued without end.
\<close>

lemma findWords_returns:
  assumes single: "\<forall>side \<in> set sides. \<forall>letter \<in> set side. length letter = 1"
    and plain: "\<forall>side \<in> set sides. \<forall>letter \<in> set side. \<not> list_ex isWhiteSpace letter"
    and bound: "\<forall>w \<in> set allWords. length w \<le> L" and depth: "L + 2 \<le> depth"
  shows "\<exists>ws. findWords depth (createTrie allWords) (createLetterBoxGraph sides) = Some ws"
proof -
  let ?g = "createLetterBoxGraph sides"
  have inv: "letterGraphInv sides ?g" by (rule letterGraphInv_create)
  then have ce: "closedEdges ?g" and ll: "letterLabels sides ?g"
    by (simp_all add: letterGraphInv_def)
  have sl: "singleLabels ?g" unfolding singleLabels_def
  proof (intro allI impI)
    fix k assume k: "hasNode ?g k"
    from node_single[OF ll single k] obtain l where l: "node ?g k = Some l" "length l = 1"
      by blast
    from node_letter[OF ll k] l(1) obtain side where "side \<in> set sides" "l \<in> set side"
      by auto
    with plain have "\<not> list_ex isWhiteSpace l" by blast
    with l show "\<exists>l. node ?g k = Some l \<and> length l = 1 \<and> \<not> list_ex isWhiteSpace l" by blast
  qed
  have tb: "\<forall>p. \<not> list_ex isWhiteSpace p \<longrightarrow> isPrefix p (createTrie allWords) \<longrightarrow> length p \<le> L"
  proof (intro allI impI)
    fix p assume "\<not> list_ex isWhiteSpace p" "isPrefix p (createTrie allWords)"
    from isPrefix_bound[OF this(2) this(1)] obtain w where
      w: "w \<in> set allWords" "length p \<le> length w" by blast
    with bound show "length p \<le> L" by force
  qed
  have "\<forall>n \<in> set (nodes ?g). hasNode ?g n" by (simp add: hasNode_def nodes_def)
  from findWordsFrom_returns[OF ce sl tb depth this] show ?thesis by (simp add: findWords_def)
qed

text \<open>
  The query \<open>a a a a a\<close> is split into five words \<open>a\<close>, each of which matches the
  entry \<open>ab\<close>: a prefix with white space can be longer than every entry.
\<close>

lemma isPrefix_white_space:
  "isPrefix ''a a a a a'' (createTrie [''ab'']) \<and> \<not> isPrefix ''aaaaa'' (createTrie [''ab''])"
  by code_simp

section \<open>Properties of the dominance filter\<close>

lemma nothingLeft_iff:
  "nothingLeft word1 word2 \<longleftrightarrow> set (nodeKeys word1) \<subseteq> set (nodeKeys word2)"
  by (auto simp: nothingLeft_def Let_def)

lemma addWord_iff:
  "addWord word1 later \<longleftrightarrow>
     (\<forall>word2 \<in> set later. \<not> set (nodeKeys word1) \<subseteq> set (nodeKeys word2))"
  by (induction later) (simp_all add: nothingLeft_iff)

lemma filter_subset: "set (filterWordsInLetterBox ws) \<subseteq> set ws"
  by (induction ws) auto

lemma addWord_filtered:
  "addWord word1 later \<Longrightarrow> addWord word1 (filterWordsInLetterBox later)"
  using filter_subset by (auto simp: addWord_iff)

text \<open>
  C6. The dominance filter is idempotent: run on its own output, it returns that
  output unchanged.
\<close>

theorem filterWordsInLetterBox_idempotent:
  "filterWordsInLetterBox (filterWordsInLetterBox ws) = filterWordsInLetterBox ws"
  by (induction ws) (simp_all add: addWord_filtered)

text \<open>
  C1. The claim: the output of the dominance filter holds no word whose set of node
  keys is a strict subset of that of another word of the output. The filter compares
  a word with the words after it only, so a word that comes after a word covering
  more survives. On the box with the sides a, b and c and the dictionary
  \<open>abc\<close>, \<open>bab\<close> the word finder delivers \<open>abc\<close> before \<open>bab\<close>; the filter returns
  both, and \<open>bab\<close> covers strictly less than \<open>abc\<close>.
\<close>

theorem filterWordsInLetterBox_keeps_dominated:
  "findWords 4 (createTrie [''abc'', ''bab'']) (createLetterBoxGraph [[''a''], [''b''], [''c'']])
   = Some [\<lparr>word = ''abc'', nodeKeys = [''00:a'', ''10:b'', ''20:c'']\<rparr>,
           \<lparr>word = ''bab'', nodeKeys = [''10:b'', ''00:a'', ''10:b'']\<rparr>]
   \<and> filterWordsInLetterBox
     [\<lparr>word = ''abc'', nodeKeys = [''00:a'', ''10:b'', ''20:c'']\<rparr>,
      \<lparr>word = ''bab'', nodeKeys = [''10:b'', ''00:a'', ''10:b'']\<rparr>]
   = [\<lparr>word = ''abc'', nodeKeys = [''00:a'', ''10:b'', ''20:c'']\<rparr>,
      \<lparr>word = ''bab'', nodeKeys = [''10:b'', ''00:a'', ''10:b'']\<rparr>]
   \<and> set [''10:b'', ''00:a'', ''10:b''] \<subset> set [''00:a'', ''10:b'', ''20:c'']"
  by code_simp

section \<open>Properties of the word graph builder\<close>

lemma orEmpty_mapPush:
  "orEmpty (map_of (mapPush k v m) k') =
     (if k' = k then orEmpty (map_of m k') @ [v] else orEmpty (map_of m k'))"
proof (cases "k \<in> fst ` set m")
  case True
  have "map_of (map (\<lambda>(k', vs). if k' = k then (k', vs @ [v]) else (k', vs)) m) k'
      = (if k' = k then map_option (\<lambda>vs. vs @ [v]) (map_of m k') else map_of m k')"
    by (induction m) auto
  moreover from True obtain vs where "map_of m k = Some vs"
    by (metis domD dom_map_of_conv_image_fst)
  ultimately show ?thesis using True by (auto simp: mapPush_def orEmpty_def)
next
  case False
  then have "map_of m k = None" by (simp add: map_of_eq_None_iff)
  then show ?thesis using False
    by (auto simp: mapPush_def orEmpty_def map_add_def split: option.splits)
qed

lemma keys_mapPush: "fst ` set (mapPush k v m) = insert k (fst ` set m)"
  by (force simp: mapPush_def)

lemma group_fold:
  "orEmpty (map_of (fold (\<lambda>w. mapPush (f w) w) ws m) k) =
     orEmpty (map_of m k) @ filter (\<lambda>w. f w = k) ws"
  by (induction ws arbitrary: m) (auto simp: orEmpty_mapPush)

lemma keys_fold:
  "fst ` set (fold (\<lambda>w. mapPush (f w) w) ws m) = fst ` set m \<union> f ` set ws"
  by (induction ws arbitrary: m) (auto simp: keys_mapPush)

lemma startMapOf_get: "orEmpty (map_of (startMapOf ws) k) = filter (\<lambda>w. startCharKey w = k) ws"
  by (simp add: startMapOf_def group_fold) (simp add: orEmpty_def)

lemma endMapOf_get: "orEmpty (map_of (endMapOf ws) k) = filter (\<lambda>w. endCharKey w = k) ws"
  by (simp add: endMapOf_def group_fold) (simp add: orEmpty_def)

lemma startMapOf_keys: "fst ` set (startMapOf ws) = startCharKey ` set ws"
  by (simp add: startMapOf_def keys_fold)

lemma endMapOf_keys: "fst ` set (endMapOf ws) = endCharKey ` set ws"
  by (simp add: endMapOf_def keys_fold)

lemma wordLabels_setNode:
  "wordLabels ws g \<Longrightarrow> X \<in> set ws \<Longrightarrow> wordLabels ws (setNode (wordKey X) X g)"
  unfolding wordLabels_def setNode_def by (auto split: if_splits)

lemma linkWords_step:
  assumes inv: "wordGraphInv ws g" and sw: "sw \<in> set ws" and ew: "ew \<in> set ws"
  shows "wordGraphInv ws (linkWords sw ew g) \<and>
         set (edgeList (linkWords sw ew g)) =
           set (edgeList g) \<union> (if wordKey sw \<noteq> wordKey ew then {(wordKey ew, wordKey sw)} else {})"
proof -
  let ?g2 = "setNode (wordKey ew) ew (setNode (wordKey sw) sw g)"
  have n: "hasNode ?g2 (wordKey ew)" "hasNode ?g2 (wordKey sw)" by (simp_all add: hasNode_setNode)
  have d2: "isDirected ?g2" using inv by (simp add: isDirected_setNode wordGraphInv_def)
  have l2: "wordLabels ws ?g2" using inv sw ew by (simp add: wordLabels_setNode wordGraphInv_def)
  have c2: "closedEdges ?g2" using inv by (simp add: closedEdges_setNode wordGraphInv_def)
  have i2: "wordGraphInv ws ?g2" using d2 l2 c2 by (simp add: wordGraphInv_def)
  have e2: "edgeList ?g2 = edgeList g" by (simp add: edgeList_setNode)
  show ?thesis
  proof (cases "wordKey sw \<noteq> wordKey ew")
    case False
    then show ?thesis using i2 e2 by (simp add: linkWords_def Let_def)
  next
    case True
    let ?g3 = "setEdge (wordKey ew) (wordKey sw) ?g2"
    have "wordLabels ws ?g3" using l2 nodeList_setEdge[OF n] by (simp add: wordLabels_def)
    moreover have "closedEdges ?g3" using c2 by (rule closedEdges_setEdge)
    moreover have "isDirected ?g3" using d2 by (simp add: isDirected_setEdge)
    moreover have "set (edgeList ?g3) = insert (wordKey ew, wordKey sw) (set (edgeList g))"
      using d2 e2 by (simp add: edges_setEdge edgePair_def)
    ultimately show ?thesis using True by (simp add: linkWords_def Let_def wordGraphInv_def)
  qed
qed

lemma createWordGraph_inv_edges:
  "wordGraphInv ws (createWordGraph ws) \<and> set (edgeList (createWordGraph ws)) = linked ws"
proof -
  let ?sm = "startMapOf ws" and ?em = "endMapOf ws"
  let ?keys = "uniq (map fst ?sm @ map fst ?em)"
  let ?E = "\<lambda>g. set (edgeList g)"
  let ?G3 = "\<lambda>sw ew. if wordKey sw \<noteq> wordKey ew then {(wordKey ew, wordKey sw)} else {}"
  let ?G2 = "\<lambda>key sw. \<Union>ew \<in> set (orEmpty (map_of ?em key)). ?G3 sw ew"
  let ?G1 = "\<lambda>key. \<Union>sw \<in> set (orEmpty (map_of ?sm key)). ?G2 key sw"
  have sub_s: "set (orEmpty (map_of ?sm key)) \<subseteq> set ws" for key by (auto simp: startMapOf_get)
  have sub_e: "set (orEmpty (map_of ?em key)) \<subseteq> set ws" for key by (auto simp: endMapOf_get)
  have inner: "wordGraphInv ws (fold (\<lambda>ew. linkWords sw ew) (orEmpty (map_of ?em key)) g) \<and>
      ?E (fold (\<lambda>ew. linkWords sw ew) (orEmpty (map_of ?em key)) g) = ?E g \<union> ?G2 key sw"
    if g: "wordGraphInv ws g" and sw: "sw \<in> set ws" for g sw key
  proof (rule fold_Un_inv[where I = "wordGraphInv ws" and F = ?E and G = "?G3 sw"])
    show "wordGraphInv ws g" by (rule g)
  next
    fix ew h assume "ew \<in> set (orEmpty (map_of ?em key))" and h: "wordGraphInv ws h"
    then have "ew \<in> set ws" using sub_e[of key] by blast
    from linkWords_step[OF h sw this]
    show "wordGraphInv ws (linkWords sw ew h) \<and> ?E (linkWords sw ew h) = ?E h \<union> ?G3 sw ew" .
  qed
  have middle: "wordGraphInv ws (fold (\<lambda>sw. fold (\<lambda>ew. linkWords sw ew) (orEmpty (map_of ?em key)))
        (orEmpty (map_of ?sm key)) g) \<and>
      ?E (fold (\<lambda>sw. fold (\<lambda>ew. linkWords sw ew) (orEmpty (map_of ?em key)))
        (orEmpty (map_of ?sm key)) g) = ?E g \<union> ?G1 key"
    if g: "wordGraphInv ws g" for g key
  proof (rule fold_Un_inv[where I = "wordGraphInv ws" and F = ?E and G = "?G2 key"])
    show "wordGraphInv ws g" by (rule g)
  next
    fix sw h assume "sw \<in> set (orEmpty (map_of ?sm key))" and h: "wordGraphInv ws h"
    then have "sw \<in> set ws" using sub_s[of key] by blast
    from inner[OF h this]
    show "wordGraphInv ws (fold (\<lambda>ew. linkWords sw ew) (orEmpty (map_of ?em key)) h) \<and>
      ?E (fold (\<lambda>ew. linkWords sw ew) (orEmpty (map_of ?em key)) h) = ?E h \<union> ?G2 key sw" .
  qed
  have new: "wordGraphInv ws (newGraph True)"
    by (simp add: wordGraphInv_def closedEdges_def wordLabels_def newGraph_def)
  let ?new = "newGraph True :: LetterBoxWord Graph"
  let ?f = "\<lambda>key. fold (\<lambda>sw. fold (\<lambda>ew. linkWords sw ew) (orEmpty (map_of ?em key)))
        (orEmpty (map_of ?sm key))"
  have "wordGraphInv ws (fold ?f ?keys ?new) \<and>
      ?E (fold ?f ?keys ?new) = ?E ?new \<union> (\<Union>key \<in> set ?keys. ?G1 key)"
  proof (rule fold_Un_inv[where I = "wordGraphInv ws" and F = ?E and G = ?G1])
    show "wordGraphInv ws ?new" by (rule new)
  next
    fix key h assume "key \<in> set ?keys" and h: "wordGraphInv ws h"
    from middle[OF h]
    show "wordGraphInv ws (?f key h) \<and> ?E (?f key h) = ?E h \<union> ?G1 key" .
  qed
  moreover have "createWordGraph ws = fold ?f ?keys ?new"
    by (simp add: createWordGraph_def Let_def)
  ultimately have outer: "wordGraphInv ws (createWordGraph ws) \<and>
      ?E (createWordGraph ws) = ?E ?new \<union> (\<Union>key \<in> set ?keys. ?G1 key)"
    by simp
  have keys: "set ?keys = startCharKey ` set ws \<union> endCharKey ` set ws"
    using startMapOf_keys[of ws] endMapOf_keys[of ws] by (simp add: set_uniq)
  have mem: "(a, b) \<in> ?G1 key \<longleftrightarrow>
      (\<exists>sw ew. sw \<in> set ws \<and> startCharKey sw = key \<and> ew \<in> set ws \<and> endCharKey ew = key \<and>
         wordKey sw \<noteq> wordKey ew \<and> a = wordKey ew \<and> b = wordKey sw)" for a b key
    by (auto simp: startMapOf_get endMapOf_get split: if_splits)
  have "(\<Union>key \<in> set ?keys. ?G1 key) = linked ws"
  proof (intro set_eqI iffI)
    fix e assume e: "e \<in> (\<Union>key \<in> set ?keys. ?G1 key)"
    obtain a b where ab: "e = (a, b)" by (cases e)
    from e obtain key where "e \<in> ?G1 key" by (rule UN_E)
    then have "\<exists>sw ew. sw \<in> set ws \<and> startCharKey sw = key \<and> ew \<in> set ws \<and>
        endCharKey ew = key \<and> wordKey sw \<noteq> wordKey ew \<and> a = wordKey ew \<and> b = wordKey sw"
      unfolding ab by (rule mem[THEN iffD1])
    then obtain sw ew where "sw \<in> set ws" "ew \<in> set ws" "endCharKey ew = startCharKey sw"
      "wordKey ew \<noteq> wordKey sw" "a = wordKey ew" "b = wordKey sw"
      by auto
    then show "e \<in> linked ws" unfolding linked_def ab by blast
  next
    fix e assume "e \<in> linked ws"
    then obtain X Y where xy: "X \<in> set ws" "Y \<in> set ws" "endCharKey X = startCharKey Y"
      "wordKey X \<noteq> wordKey Y" "e = (wordKey X, wordKey Y)"
      unfolding linked_def by blast
    have "\<exists>sw ew. sw \<in> set ws \<and> startCharKey sw = startCharKey Y \<and> ew \<in> set ws \<and>
        endCharKey ew = startCharKey Y \<and> wordKey sw \<noteq> wordKey ew \<and>
        wordKey X = wordKey ew \<and> wordKey Y = wordKey sw"
      using xy by (intro exI[of _ Y] exI[of _ X]) auto
    then have "(wordKey X, wordKey Y) \<in> ?G1 (startCharKey Y)" by (rule mem[THEN iffD2])
    moreover have "startCharKey Y \<in> set ?keys" unfolding keys using xy(2) by simp
    ultimately show "e \<in> (\<Union>key \<in> set ?keys. ?G1 key)" unfolding xy(5) by (rule UN_I[rotated])
  qed
  with outer show ?thesis by (simp add: newGraph_def)
qed

lemma endCharKey_cong: "nodeKeys X = nodeKeys Y \<Longrightarrow> endCharKey X = endCharKey Y"
  by (simp add: endCharKey_def)

lemma startCharKey_cong: "nodeKeys X = nodeKeys Y \<Longrightarrow> startCharKey X = startCharKey Y"
  by (simp add: startCharKey_def)

lemma wordKey_cong: "nodeKeys X = nodeKeys Y \<Longrightarrow> wordKey X = wordKey Y"
  by (simp add: wordKey_def)

lemma charKey_None: "endCharKey X = startCharKey Y \<Longrightarrow> endCharKey X = None \<Longrightarrow> nodeKeys X = nodeKeys Y"
  by (auto simp: endCharKey_def startCharKey_def split: if_splits list.splits)

lemma wordGraph_label:
  assumes "wordGraphInv ws g" "hasNode g a"
  shows "\<exists>X \<in> set ws. node g a = Some X \<and> wordKey X = a"
proof -
  from hasNode_map_of[OF assms(2)] obtain l where
    l: "map_of (nodeList g) a = Some l" "(a, l) \<in> set (nodeList g)" by auto
  from assms(1) l(2) obtain X where "X \<in> set ws" "(a, l) = (wordKey X, Some X)"
    unfolding wordGraphInv_def wordLabels_def by blast
  with l(1) show ?thesis by (auto simp: node_def)
qed

lemma join_Cons2: "join sep (x # y # ys) = x @ sep @ join sep (y # ys)"
  by simp

lemma join_no_gt: "\<forall>x \<in> set [x]. CHR ''>'' \<notin> set x \<Longrightarrow> CHR ''>'' \<notin> set (join ''->'' [x])"
  by simp

lemma takeWhile_arrow:
  "CHR ''>'' \<notin> set x \<Longrightarrow> takeWhile (\<lambda>c. c \<noteq> CHR ''>'') (x @ ''->'' @ r) = x @ ''-''"
  by (induction x) auto

lemma join_arrow_inj:
  assumes "xs \<noteq> []" "ys \<noteq> []"
    and "\<forall>x \<in> set xs. CHR ''>'' \<notin> set x" "\<forall>y \<in> set ys. CHR ''>'' \<notin> set y"
    and "join ''->'' xs = join ''->'' ys"
  shows "xs = ys"
  using assms
proof (induction xs arbitrary: ys)
  case Nil
  then show ?case by simp
next
  case (Cons x xs)
  then obtain y ys' where ys: "ys = y # ys'" by (cases ys) auto
  show ?case
  proof (cases xs)
    case Nil
    show ?thesis
    proof (cases ys')
      case Nil
      with Cons.prems \<open>xs = []\<close> ys show ?thesis by simp
    next
      case (Cons z zs)
      have "CHR ''>'' \<in> set (join ''->'' ys)" unfolding ys Cons by simp
      moreover have "CHR ''>'' \<notin> set (join ''->'' (x # xs))" using Cons.prems(3) \<open>xs = []\<close> by simp
      ultimately show ?thesis using Cons.prems(5) by simp
    qed
  next
    case (Cons x' xs')
    note xs = this
    show ?thesis
    proof (cases ys')
      case Nil
      have "CHR ''>'' \<in> set (join ''->'' (x # xs))" unfolding xs by simp
      moreover have "CHR ''>'' \<notin> set (join ''->'' ys)" using Cons.prems(4) ys Nil by simp
      ultimately show ?thesis using Cons.prems(5) by simp
    next
      case (Cons z zs)
      have eq: "x @ ''->'' @ join ''->'' xs = y @ ''->'' @ join ''->'' ys'"
        using Cons.prems(5) unfolding ys xs Cons by simp
      have "takeWhile (\<lambda>c. c \<noteq> CHR ''>'') (x @ ''->'' @ join ''->'' xs) = x @ ''-''"
        using Cons.prems(3) by (intro takeWhile_arrow) simp
      moreover have "takeWhile (\<lambda>c. c \<noteq> CHR ''>'') (y @ ''->'' @ join ''->'' ys') = y @ ''-''"
        using Cons.prems(4) ys by (intro takeWhile_arrow) simp
      ultimately have xy: "x = y" using eq by simp
      with eq have "join ''->'' xs = join ''->'' ys'" by simp
      moreover have "xs \<noteq> []" "ys' \<noteq> []" using xs Cons by simp_all
      ultimately have "xs = ys'" using Cons.prems(3,4) ys by (intro Cons.IH) simp_all
      with xy ys show ?thesis by simp
    qed
  qed
qed

lemma wordKey_inj:
  assumes "\<forall>X \<in> set ws. nodeKeys X \<noteq> [] \<and> (\<forall>k \<in> set (nodeKeys X). CHR ''>'' \<notin> set k)"
  shows "\<forall>X \<in> set ws. \<forall>Y \<in> set ws. wordKey X = wordKey Y \<longrightarrow> nodeKeys X = nodeKeys Y"
  using assms join_arrow_inj unfolding wordKey_def by blast

text \<open>
  C8. Let the key of a word, its node keys joined by \<open>->\<close>, determine its node keys
  among the words given, as it does for node keys that hold no \<open>>\<close> (lemma
  \<open>wordKey_inj\<close>). Then every edge of the word graph goes from a word ending on a
  letter node to a word starting on that letter node, the two words differ in their
  node keys, and the end points are the nodes of these words; and every two words of
  the input with different node keys, the first ending where the second starts, have
  an edge.
\<close>

theorem createWordGraph_edges:
  assumes inj: "\<forall>X \<in> set ws. \<forall>Y \<in> set ws. wordKey X = wordKey Y \<longrightarrow> nodeKeys X = nodeKeys Y"
  shows "(\<forall>e \<in> set (edgeList (createWordGraph ws)).
            \<exists>X Y L. node (createWordGraph ws) (fst e) = Some X \<and> fst e = wordKey X \<and>
                   node (createWordGraph ws) (snd e) = Some Y \<and> snd e = wordKey Y \<and>
                   X \<in> set ws \<and> Y \<in> set ws \<and>
                   endCharKey X = Some L \<and> startCharKey Y = Some L \<and>
                   nodeKeys X \<noteq> nodeKeys Y) \<and>
         (\<forall>X \<in> set ws. \<forall>Y \<in> set ws.
            endCharKey X = startCharKey Y \<and> nodeKeys X \<noteq> nodeKeys Y \<longrightarrow>
            (wordKey X, wordKey Y) \<in> set (edgeList (createWordGraph ws)))"
proof (intro conjI ballI impI)
  let ?g = "createWordGraph ws"
  have inv: "wordGraphInv ws ?g" and edges: "set (edgeList ?g) = linked ws"
    using createWordGraph_inv_edges[of ws] by simp_all
  fix e assume e: "e \<in> set (edgeList ?g)"
  then obtain X0 Y0 where xy: "X0 \<in> set ws" "Y0 \<in> set ws" "endCharKey X0 = startCharKey Y0"
    "wordKey X0 \<noteq> wordKey Y0" "e = (wordKey X0, wordKey Y0)"
    unfolding edges linked_def by blast
  have "hasNode ?g (fst e)" "hasNode ?g (snd e)"
    using inv e by (simp_all add: wordGraphInv_def closedEdges_def)
  from wordGraph_label[OF inv this(1)] wordGraph_label[OF inv this(2)]
  obtain X Y where X: "X \<in> set ws" "node ?g (fst e) = Some X" "wordKey X = fst e"
    and Y: "Y \<in> set ws" "node ?g (snd e) = Some Y" "wordKey Y = snd e"
    by blast
  have kx: "wordKey X = wordKey X0" "wordKey Y = wordKey Y0" using X(3) Y(3) xy(5) by simp_all
  have nx: "nodeKeys X = nodeKeys X0" using inj X(1) xy(1) kx(1) by blast
  have ny: "nodeKeys Y = nodeKeys Y0" using inj Y(1) xy(2) kx(2) by blast
  have ne: "nodeKeys X0 \<noteq> nodeKeys Y0" using xy(4) wordKey_cong[of X0 Y0] by blast
  have "endCharKey X0 \<noteq> None" using charKey_None[OF xy(3)] ne by blast
  then obtain L where "endCharKey X0 = Some L" by auto
  then have "endCharKey X = Some L" "startCharKey Y = Some L"
    using xy(3) endCharKey_cong[OF nx] startCharKey_cong[OF ny] by simp_all
  then show "\<exists>X Y L. node ?g (fst e) = Some X \<and> fst e = wordKey X \<and>
      node ?g (snd e) = Some Y \<and> snd e = wordKey Y \<and> X \<in> set ws \<and> Y \<in> set ws \<and>
      endCharKey X = Some L \<and> startCharKey Y = Some L \<and> nodeKeys X \<noteq> nodeKeys Y"
    using X Y nx ny ne by (intro exI[of _ X] exI[of _ Y] exI[of _ L]) (simp del: ex_simps)
next
  let ?g = "createWordGraph ws"
  have edges: "set (edgeList ?g) = linked ws"
    using createWordGraph_inv_edges[of ws] by simp
  fix X Y assume xy: "X \<in> set ws" "Y \<in> set ws"
    "endCharKey X = startCharKey Y \<and> nodeKeys X \<noteq> nodeKeys Y"
  then have "wordKey X \<noteq> wordKey Y" using inj by blast
  with xy have "(wordKey X, wordKey Y) \<in> linked ws"
    unfolding linked_def by blast
  then show "(wordKey X, wordKey Y) \<in> set (edgeList ?g)"
    unfolding edges .
qed

theorem createWordGraph_edges_witness:
  "(wordKey (exampleWords ! 0), wordKey (exampleWords ! 1))
     \<in> set (edgeList (createWordGraph exampleWords)) \<and>
   edgeList (createWordGraph exampleWords) = [(''20:c->00:a->21:d'', ''21:d->00:a->10:b'')] \<and>
   endCharKey (exampleWords ! 0) = Some ''21:d'' \<and> startCharKey (exampleWords ! 1) = Some ''21:d''"
proof -
  have inj: "\<forall>X \<in> set exampleWords. \<forall>Y \<in> set exampleWords.
      wordKey X = wordKey Y \<longrightarrow> nodeKeys X = nodeKeys Y"
    by (simp add: exampleWords_def wordKey_def)
  have mem: "exampleWords ! 0 \<in> set exampleWords" "exampleWords ! 1 \<in> set exampleWords"
    by (simp_all add: exampleWords_def)
  have link: "endCharKey (exampleWords ! 0) = startCharKey (exampleWords ! 1) \<and>
      nodeKeys (exampleWords ! 0) \<noteq> nodeKeys (exampleWords ! 1)"
    by (simp add: exampleWords_def endCharKey_def startCharKey_def)
  have "(wordKey (exampleWords ! 0), wordKey (exampleWords ! 1))
      \<in> set (edgeList (createWordGraph exampleWords))"
    using createWordGraph_edges [OF inj, THEN conjunct2, rule_format, OF mem link] .
  moreover have "edgeList (createWordGraph exampleWords)
      = [(''20:c->00:a->21:d'', ''21:d->00:a->10:b'')]"
    by code_simp
  moreover have "endCharKey (exampleWords ! 0) = Some ''21:d''"
    "startCharKey (exampleWords ! 1) = Some ''21:d''"
    by (simp_all add: exampleWords_def endCharKey_def startCharKey_def)
  ultimately show ?thesis by blast
qed

section \<open>Properties of the solution search\<close>

lemma those_snoc:
  "those (xs @ [x]) = (case those xs of None \<Rightarrow> None
                        | Some ys \<Rightarrow> (case x of None \<Rightarrow> None | Some y \<Rightarrow> Some (ys @ [y])))"
  by (induction xs) (auto split: option.splits)

lemma those_length: "those xs = Some ys \<Longrightarrow> length ys = length xs"
  by (induction xs arbitrary: ys) (auto split: option.splits)

lemma those_set: "those xs = Some ys \<Longrightarrow> y \<in> set ys \<Longrightarrow> Some y \<in> set xs"
  by (induction xs arbitrary: ys) (auto split: option.splits)

lemma wordsOf_snoc:
  "wordsOf g path = Inr pw \<Longrightarrow> node g k = Some w \<Longrightarrow> wordsOf g (path @ [k]) = Inr (pw @ [w])"
  by (auto simp: wordsOf_def those_snoc split: option.splits)

lemma wordsOf_length: "wordsOf g path = Inr pw \<Longrightarrow> length pw = length path"
  by (auto simp: wordsOf_def split: option.splits dest: those_length)

lemma node_labelsOf: "node g k = Some w \<Longrightarrow> w \<in> set (labelsOf g)"
proof -
  assume "node g k = Some w"
  then have "(k, Some w) \<in> set (nodeList g)"
    by (auto simp: node_def split: option.splits dest!: map_of_SomeD)
  then show ?thesis by (force simp: labelsOf_def)
qed

lemma wordsOf_labels: "wordsOf g path = Inr pw \<Longrightarrow> set pw \<subseteq> set (labelsOf g)"
proof
  fix w assume a: "wordsOf g path = Inr pw" "w \<in> set pw"
  then have "those (map (node g) path) = Some pw" by (auto simp: wordsOf_def split: option.splits)
  from those_set[OF this a(2)] obtain k where "node g k = Some w" by auto
  then show "w \<in> set (labelsOf g)" by (rule node_labelsOf)
qed

lemma letterNodesOf_take: "letterNodesOf (take n ws) \<subseteq> letterNodesOf ws"
  by (auto simp: letterNodesOf_def dest: in_set_takeD)

lemma letterNodesOf_snoc: "letterNodesOf (ws @ [w]) = letterNodesOf ws \<union> set (nodeKeys w)"
  by (auto simp: letterNodesOf_def)

lemma letterNodesOf_mono: "set ws \<subseteq> set vs \<Longrightarrow> letterNodesOf ws \<subseteq> letterNodesOf vs"
  by (auto simp: letterNodesOf_def)

lemma finite_letterNodesOf: "finite (letterNodesOf ws)"
  by (simp add: letterNodesOf_def)

lemma recorded_new:
  assumes len: "\<not> 25 < length path"
    and pw: "wordsOf g path = Inr pw" "pw = [] \<or> card (letterNodesOf pw) < m"
    and w: "node g k = Some w" "hasNewNode w pw"
    and cov: "m \<le> card (letterNodesOf (pw @ [w]))"
  shows "recorded g m \<lparr>numSeenLetterNodes = card (letterNodesOf (pw @ [w])),
           letterBoxWordList = pw @ [w]\<rparr>"
proof -
  have l: "length pw = length path" using pw(1) by (rule wordsOf_length)
  have pos: "0 < card (letterNodesOf (pw @ [w]))"
    using w(2) by (simp add: hasNewNode_def Let_def letterNodesOf_snoc)
  have lab: "set (pw @ [w]) \<subseteq> set (labelsOf g)"
    using wordsOf_labels[OF pw(1)] node_labelsOf[OF w(1)] by auto
  have pre: "card (letterNodesOf (take n (pw @ [w]))) < m" if n: "0 < n" "n < length (pw @ [w])" for n
  proof -
    from n have ne: "pw \<noteq> []" by auto
    with pw(2) have c: "card (letterNodesOf pw) < m" by simp
    have "take n (pw @ [w]) = take n pw" using n by simp
    moreover have "card (letterNodesOf (take n pw)) \<le> card (letterNodesOf pw)"
      by (rule card_mono[OF finite_letterNodesOf letterNodesOf_take])
    ultimately show ?thesis using c by simp
  qed
  show ?thesis using len l pos lab pre cov by (simp add: recorded_def Let_def)
qed

lemma explore_recorded:
  "exploreWordGraph k path g m st = Inr st' \<Longrightarrow> openPath g m path \<Longrightarrow>
     \<forall>s \<in> set (snd st). recorded g m s \<Longrightarrow> \<forall>s \<in> set (snd st'). recorded g m s"
  "exploreSuccessors ks path g m st = Inr st' \<Longrightarrow> openPath g m path \<Longrightarrow>
     \<forall>s \<in> set (snd st). recorded g m s \<Longrightarrow> \<forall>s \<in> set (snd st'). recorded g m s"
proof (induction k path g m st and ks path g m st arbitrary: st' and st'
        rule: exploreWordGraph_exploreSuccessors.induct)
  case (1 nodeKey path graph minNumNodes seenPaths solutions)
  from "1.prems"(2) obtain pw where pw: "wordsOf graph path = Inr pw"
      "pw = [] \<or> card (letterNodesOf pw) < minNumNodes"
    by (auto simp: openPath_def)
  show ?case
  proof (cases "25 < length path")
    case True
    with "1.prems"(1) show ?thesis by simp
  next
    case len: False
    show ?thesis
    proof (cases "node graph nodeKey")
      case None
      with "1.prems"(1) len pw show ?thesis by simp
    next
      case (Some w)
      note w = this
      show ?thesis
      proof (cases "hasNewNode w pw \<and> concat (path @ [nodeKey]) \<notin> seenPaths")
        case False
        with "1.prems" len pw w show ?thesis by (auto simp: Let_def split: if_splits)
      next
        case True
        have ws: "wordsOf graph (path @ [nodeKey]) = Inr (pw @ [w])"
          using pw(1) w by (rule wordsOf_snoc)
        show ?thesis
        proof (cases "minNumNodes \<le> card (letterNodesOf (pw @ [w]))")
          case cov: True
          have "recorded graph minNumNodes \<lparr>numSeenLetterNodes = card (letterNodesOf (pw @ [w])),
                  letterBoxWordList = pw @ [w]\<rparr>"
            using len pw w True cov by (intro recorded_new) auto
          with "1.prems" len pw w True ws cov show ?thesis by (auto simp: Let_def)
        next
          case ncov: False
          have op: "openPath graph minNumNodes (path @ [nodeKey])"
            using ws ncov by (auto simp: openPath_def)
          have call: "exploreSuccessors (orEmpty (successors graph nodeKey)) (path @ [nodeKey]) graph
              minNumNodes (insert (concat (path @ [nodeKey])) seenPaths, solutions) = Inr st'"
            using "1.prems"(1) len pw w True ws ncov by (simp add: Let_def)
          show ?thesis
            using "1.IH"[OF len pw(1) w _ refl refl _ ws refl _ call op] True ncov "1.prems"(3)
            by simp
        qed
      qed
    qed
  qed
next
  case (2 path graph minNumNodes st)
  then show ?case by simp
next
  case (3 neighborKey rest path graph minNumNodes st)
  from "3.prems"(1) obtain st1 where
    a: "exploreWordGraph neighborKey path graph minNumNodes st = Inr st1" and
    b: "exploreSuccessors rest path graph minNumNodes st1 = Inr st'"
    by (auto split: sum.splits)
  have "\<forall>s \<in> set (snd st1). recorded graph minNumNodes s"
    using "3.IH"(1)[OF a "3.prems"(2,3)] .
  then show ?case using "3.IH"(2)[OF a b "3.prems"(2)] by simp
qed

lemma openPath_Nil: "openPath g m []"
  by (simp add: openPath_def wordsOf_def)

lemma findSolutionsFrom_recorded:
  "findSolutionsFrom ks g m sols = Inr sols' \<Longrightarrow> \<forall>s \<in> set sols. recorded g m s \<Longrightarrow>
     \<forall>s \<in> set sols'. recorded g m s"
proof (induction ks arbitrary: sols)
  case Nil
  then show ?case by simp
next
  case (Cons k ks)
  from Cons.prems(1) obtain seen sols1 where
    a: "exploreWordGraph k [] g m ({}, sols) = Inr (seen, sols1)" and
    b: "findSolutionsFrom ks g m sols1 = Inr sols'"
    by (auto split: sum.splits prod.splits)
  have "\<forall>s \<in> set sols1. recorded g m s"
    using explore_recorded(1)[OF a openPath_Nil] Cons.prems(2) by simp
  then show ?case using Cons.IH[OF b] by simp
qed

lemma findSolutions_recorded:
  "findSolutions g m = Inr sols \<Longrightarrow> s \<in> set sols \<Longrightarrow> recorded g m s"
  using findSolutionsFrom_recorded[of "nodes g" g m "[]" sols] by (simp add: findSolutions_def)

text \<open>
  C10. Whenever \<open>findSolutions\<close> completes without raising an error, the chain of
  every recorded solution has at most 26 words.
\<close>

theorem findSolutions_chain_length:
  assumes "findSolutions wordGraph minNumNodes = Inr solutions" and "s \<in> set solutions"
  shows "length (letterBoxWordList s) \<le> 26"
  using findSolutions_recorded[OF assms] by (simp add: recorded_def Let_def)

theorem findSolutions_chain_length_witness:
  "findSolutions (createWordGraph exampleWords) 4
     = Inr [\<lparr>numSeenLetterNodes = 4, letterBoxWordList = exampleWords\<rparr>] \<and>
   length (letterBoxWordList \<lparr>numSeenLetterNodes = 4, letterBoxWordList = exampleWords\<rparr>) \<le> 26"
proof -
  have run: "findSolutions (createWordGraph exampleWords) 4
      = Inr [\<lparr>numSeenLetterNodes = 4, letterBoxWordList = exampleWords\<rparr>]"
    by code_simp
  show ?thesis
    using run findSolutions_chain_length [OF run,
        of "\<lparr>numSeenLetterNodes = 4, letterBoxWordList = exampleWords\<rparr>"]
    by simp
qed

lemma recorded_full_coverage:
  assumes r: "recorded wordGraph minNumNodes s"
    and box: "letterNodesOf (labelsOf wordGraph) \<subseteq> set box" "card (set box) = minNumNodes"
  shows "numSeenLetterNodes s = minNumNodes \<and>
         card (letterNodesOf (letterBoxWordList s)) = minNumNodes \<and>
         (\<forall>n < length (letterBoxWordList s).
            card (letterNodesOf (take n (letterBoxWordList s))) < minNumNodes)"
proof -
  let ?ws = "letterBoxWordList s"
  from r have lab: "set ?ws \<subseteq> set (labelsOf wordGraph)"
    and ge: "minNumNodes \<le> card (letterNodesOf ?ws)"
    and pos: "0 < card (letterNodesOf ?ws)"
    and num: "numSeenLetterNodes s = card (letterNodesOf ?ws)"
    and pre: "\<And>n. 0 < n \<Longrightarrow> n < length ?ws \<Longrightarrow> card (letterNodesOf (take n ?ws)) < minNumNodes"
    by (simp_all add: recorded_def Let_def)
  have "letterNodesOf ?ws \<subseteq> set box" using letterNodesOf_mono[OF lab] box(1) by blast
  then have "card (letterNodesOf ?ws) \<le> card (set box)" by (intro card_mono) simp_all
  with ge box(2) have eq: "card (letterNodesOf ?ws) = minNumNodes" by simp
  have "card (letterNodesOf (take n ?ws)) < minNumNodes" if "n < length ?ws" for n
  proof (cases n)
    case 0
    then show ?thesis using pos eq by (simp add: letterNodesOf_def)
  next
    case (Suc k)
    then show ?thesis using pre[of n] that by simp
  qed
  with eq num show ?thesis by simp
qed

text \<open>
  C4. Let the target count be the number of letter nodes of the box, and let the
  words of the word graph walk through letter nodes of that box only. Then every
  solution the search returns covers exactly that many distinct letter nodes, and
  no proper prefix of its chain covers them all.
\<close>

theorem findSolutions_full_coverage:
  assumes sol: "findSolutions wordGraph minNumNodes = Inr solutions" "s \<in> set solutions"
    and box: "letterNodesOf (labelsOf wordGraph) \<subseteq> set box" "card (set box) = minNumNodes"
  shows "numSeenLetterNodes s = minNumNodes \<and>
         card (letterNodesOf (letterBoxWordList s)) = minNumNodes \<and>
         (\<forall>n < length (letterBoxWordList s).
            card (letterNodesOf (take n (letterBoxWordList s))) < minNumNodes)"
  using findSolutions_recorded [OF sol] box by (rule recorded_full_coverage)

theorem findSolutions_full_coverage_witness:
  "findSolutions (createWordGraph exampleWords) 4
     = Inr [\<lparr>numSeenLetterNodes = 4, letterBoxWordList = exampleWords\<rparr>] \<and>
   letterNodesOf (labelsOf (createWordGraph exampleWords)) \<subseteq> set exampleBox \<and>
   card (set exampleBox) = 4 \<and>
   card (letterNodesOf exampleWords) = 4 \<and>
   card (letterNodesOf (take 1 exampleWords)) < 4"
proof -
  let ?s = "\<lparr>numSeenLetterNodes = 4, letterBoxWordList = exampleWords\<rparr>"
  have run: "findSolutions (createWordGraph exampleWords) 4 = Inr [?s]"
    by code_simp
  have mem: "?s \<in> set [?s]" by simp
  have box: "letterNodesOf (labelsOf (createWordGraph exampleWords)) \<subseteq> set exampleBox"
    by code_simp
  have cnt: "card (set exampleBox) = 4" by code_simp
  have two: "1 < length (letterBoxWordList ?s)" by (simp add: exampleWords_def)
  from findSolutions_full_coverage [OF run mem box cnt] two
  have "card (letterNodesOf exampleWords) = 4 \<and> card (letterNodesOf (take 1 exampleWords)) < 4"
    by auto
  with run box cnt show ?thesis by blast
qed



section \<open>Properties of the whole run\<close>

lemma found_nodes: "found g w \<Longrightarrow> set (nodeKeys w) \<subseteq> set (nodes g)"
  by (auto simp: found_def okPath_def hasNode_def nodes_def)

lemma labelsOf_createWordGraph: "set (labelsOf (createWordGraph ws)) \<subseteq> set ws"
proof -
  have "wordLabels ws (createWordGraph ws)"
    using createWordGraph_inv_edges[of ws] by (simp add: wordGraphInv_def)
  then show ?thesis by (fastforce simp: wordLabels_def labelsOf_def split: option.splits)
qed

lemma solve_words_found:
  assumes "solve depth allWords sides = Some (ws, r)" "w \<in> set ws"
  shows "found (createLetterBoxGraph sides) w"
proof -
  have "closedEdges (createLetterBoxGraph sides)"
    using letterGraphInv_create[of sides] by (simp add: letterGraphInv_def)
  moreover from assms(1) have "findWords depth (createTrie allWords) (createLetterBoxGraph sides) = Some ws"
    by (auto simp: solve_def Let_def split: option.splits)
  ultimately show ?thesis using assms(2) by (rule findWords_found)
qed

text \<open>
  The premises under which the word graph and the search were treated hold in the run
  of \<open>main\<close>: the words of the word graph walk through nodes of the letter graph,
  whose count is the target, and for letters other than \<open>>\<close> the key of a word
  determines its node keys.
\<close>

lemma solve_full_coverage:
  assumes run: "solve depth allWords sides = Some (ws, Inr solutions)" and s: "s \<in> set solutions"
  shows "numSeenLetterNodes s = nodeCount (createLetterBoxGraph sides) \<and>
         card (letterNodesOf (letterBoxWordList s)) = nodeCount (createLetterBoxGraph sides) \<and>
         (\<forall>n < length (letterBoxWordList s).
            card (letterNodesOf (take n (letterBoxWordList s))) < nodeCount (createLetterBoxGraph sides))"
proof -
  let ?g = "createLetterBoxGraph sides"
  let ?wg = "createWordGraph (filterWordsInLetterBox ws)"
  from run have sol: "findSolutions ?wg (nodeCount ?g) = Inr solutions"
    by (auto simp: solve_def Let_def split: option.splits)
  have r: "recorded ?wg (nodeCount ?g) s" using sol s by (rule findSolutions_recorded)
  have "set (labelsOf ?wg) \<subseteq> set ws"
    using labelsOf_createWordGraph[of "filterWordsInLetterBox ws"] filter_subset[of ws] by blast
  then have "letterNodesOf (labelsOf ?wg) \<subseteq> set (nodes ?g)"
    using solve_words_found[OF run] found_nodes[of ?g] by (fastforce simp: letterNodesOf_def)
  moreover have "distinct (nodes ?g)"
    using letterGraphInv_create[of sides] by (simp add: letterGraphInv_def nodes_def)
  then have "card (set (nodes ?g)) = length (nodes ?g)" by (rule distinct_card)
  then have "card (set (nodes ?g)) = nodeCount ?g"
    by (simp add: nodeCount_def nodes_def)
  ultimately show ?thesis using r by (intro recorded_full_coverage)
qed

lemma solve_wordKey_inj:
  assumes letters: "\<forall>side \<in> set sides. \<forall>letter \<in> set side. length letter = 1 \<and> CHR ''>'' \<notin> set letter"
    and run: "solve depth allWords sides = Some (ws, r)"
  shows "\<forall>X \<in> set (filterWordsInLetterBox ws). \<forall>Y \<in> set (filterWordsInLetterBox ws).
           wordKey X = wordKey Y \<longrightarrow> nodeKeys X = nodeKeys Y"
proof (rule wordKey_inj, intro ballI conjI)
  let ?g = "createLetterBoxGraph sides"
  fix X assume "X \<in> set (filterWordsInLetterBox ws)"
  then have X: "X \<in> set ws" using filter_subset by blast
  have f: "found ?g X" using run X by (rule solve_words_found)
  have single: "\<forall>side \<in> set sides. \<forall>letter \<in> set side. length letter = 1" using letters by blast
  have ll: "letterLabels sides ?g" using letterGraphInv_create[of sides] by (simp add: letterGraphInv_def)
  have nodesX: "\<forall>k \<in> set (nodeKeys X). hasNode ?g k" using f by (simp add: found_def okPath_def)
  then have "\<forall>k \<in> set (nodeKeys X). \<exists>l. node ?g k = Some l \<and> length l = 1"
    using node_single[OF ll single] by blast
  then have "length (word X) = length (nodeKeys X)" using f by (simp add: found_def length_prefixOf)
  moreover have "3 \<le> length (word X)" using f by (auto simp: found_def)
  ultimately show "nodeKeys X \<noteq> []" by auto
  fix k assume "k \<in> set (nodeKeys X)"
  then have "hasNode ?g k" using nodesX by blast
  then obtain l where "(k, l) \<in> set (nodeList ?g)" by (auto simp: hasNode_def)
  with ll obtain i p where "i < length sides" "p < length (sides ! i)"
    "k = letterKey i p (sides ! i ! p)" unfolding letterLabels_def by blast
  moreover from this have "CHR ''>'' \<notin> set (sides ! i ! p)" using letters by (meson nth_mem)
  ultimately show "CHR ''>'' \<notin> set k" using letterKey_no_gt by simp
qed

lemma visitNode_emptyTrie:
  "visitNode (Suc d) n path g emptyTrie (seen, ws) =
     Some (insert (join '' '' (path @ [n])) seen, ws)"
  by (auto simp: Let_def isWord_def isPrefix_def search_emptyTrie)

lemma findWordsFrom_emptyTrie: "findWordsFrom (Suc d) ns g emptyTrie ws = Some ws"
  by (induction ns) (simp_all add: visitNode_emptyTrie del: visitNode.simps)

lemma createLetterBoxGraph_Nil: "createLetterBoxGraph [] = newGraph False"
  by (simp add: createLetterBoxGraph_def)

lemma createWordGraph_Nil: "createWordGraph [] = newGraph True"
  by (simp add: createWordGraph_def startMapOf_def endMapOf_def)

lemma findSolutions_newGraph: "findSolutions (newGraph d) n = Inr []"
  by (simp add: findSolutions_def nodes_def newGraph_def)

lemma two_nonempty:
  assumes "i < j" "j < length xs" "P (xs ! i)" "P (xs ! j)"
  shows "2 \<le> length (filter P xs)"
proof -
  have i: "i < length xs" using assms by simp
  have split: "xs = take i xs @ xs ! i # drop (Suc i) xs" using i by (rule id_take_nth_drop)
  have "xs ! j = drop (Suc i) xs ! (j - Suc i)" using assms by simp
  moreover have "j - Suc i < length (drop (Suc i) xs)" using assms by simp
  ultimately have "xs ! j \<in> set (drop (Suc i) xs)" by (metis nth_mem)
  then have "filter P (drop (Suc i) xs) \<noteq> []" using assms(4) by (auto simp: filter_empty_conv)
  then have "1 \<le> length (filter P (drop (Suc i) xs))" by (cases "filter P (drop (Suc i) xs)") simp_all
  moreover have "length (filter P xs) =
      length (filter P (take i xs)) + (1 + length (filter P (drop (Suc i) xs)))"
    using assms(3) by (subst split) simp
  ultimately show ?thesis by simp
qed

lemma one_side_graph:
  assumes "length (filter (\<lambda>side. side \<noteq> []) sides) \<le> 1"
  shows "createLetterBoxGraph sides = newGraph False"
proof -
  let ?g = "createLetterBoxGraph sides"
  have no: "\<not> (i < j \<and> j < length sides \<and> p < length (sides ! i) \<and> q < length (sides ! j))"
    for i j p q
  proof
    assume a: "i < j \<and> j < length sides \<and> p < length (sides ! i) \<and> q < length (sides ! j)"
    then have "sides ! i \<noteq> []" "sides ! j \<noteq> []" by auto
    from two_nonempty[of i j sides "\<lambda>side. side \<noteq> []", OF _ _ this] a assms show False by simp
  qed
  have "k \<notin> set (nodes ?g)" for k unfolding node_iff using no by simp
  then have "nodes ?g = []" by (metis list.set_intros(1) neq_Nil_conv)
  then have n: "nodeList ?g = []" by (simp add: nodes_def)
  have "e \<notin> set (edgeList ?g)" for e unfolding edge_iff using no by simp
  then have e: "edgeList ?g = []" by (metis list.set_intros(1) neq_Nil_conv)
  have "\<not> isDirected ?g" using letterGraphInv_create[of sides] by (simp add: letterGraphInv_def)
  with n e show ?thesis by (simp add: newGraph_def)
qed

text \<open>
  C9, as the code has it. For a layout in which at most one side holds letters (the
  layout with no side, and every layout of sides without letters, among them),
  whatever the dictionary, and for the empty dictionary, whatever the layout, the run
  completes without error and finds nothing: the letter graph of such a layout has no
  node and no edge, the word finder returns no word and the solution search no
  solution. With the empty dictionary no walk goes beyond its first node, so any
  positive depth bound is enough.
\<close>

theorem solve_degenerate:
  "(length (filter (\<lambda>side. side \<noteq> []) sides) \<le> 1 \<longrightarrow>
      nodeList (createLetterBoxGraph sides) = [] \<and> edgeList (createLetterBoxGraph sides) = [] \<and>
      solve depth allWords sides = Some ([], Inr [])) \<and>
   solve (Suc depth) [] sides = Some ([], Inr [])"
proof (intro conjI impI)
  assume one: "length (filter (\<lambda>side. side \<noteq> []) sides) \<le> 1"
  have g: "createLetterBoxGraph sides = newGraph False" using one by (rule one_side_graph)
  show "nodeList (createLetterBoxGraph sides) = []" "edgeList (createLetterBoxGraph sides) = []"
    by (simp_all add: g newGraph_def)
  have "findWords depth (createTrie allWords) (createLetterBoxGraph sides) = Some []"
    by (simp add: g findWords_def nodes_def newGraph_def)
  then show "solve depth allWords sides = Some ([], Inr [])"
    by (simp add: solve_def Let_def createWordGraph_Nil findSolutions_newGraph)
next
  have "findWords (Suc depth) (createTrie []) (createLetterBoxGraph sides) = Some []"
    by (simp add: findWords_def createTrie_def findWordsFrom_emptyTrie)
  then show "solve (Suc depth) [] sides = Some ([], Inr [])"
    by (simp add: solve_def Let_def createWordGraph_Nil findSolutions_newGraph)
qed

theorem solve_degenerate_witness:
  "solve 0 [''ab'', ''aba''] [] = Some ([], Inr []) \<and>
   nodeList (createLetterBoxGraph [[''a'', ''b''], []]) = [] \<and>
   solve 5 [''ab'', ''aba''] [[''a'', ''b''], []] = Some ([], Inr []) \<and>
   solve (Suc 0) [] [[''a''], [''b'']] = Some ([], Inr [])"
proof -
  have a: "length (filter (\<lambda>side. side \<noteq> []) ([] :: string list list)) \<le> 1" by simp
  have b: "length (filter (\<lambda>side. side \<noteq> []) [[''a'', ''b''], []]) \<le> 1" by simp
  have "solve 0 [''ab'', ''aba''] [] = Some ([], Inr [])"
    using a solve_degenerate [of "[]" 0 "[''ab'', ''aba'']"] by blast
  moreover have "nodeList (createLetterBoxGraph [[''a'', ''b''], []]) = [] \<and>
      solve 5 [''ab'', ''aba''] [[''a'', ''b''], []] = Some ([], Inr [])"
    using b solve_degenerate [of "[[''a'', ''b''], []]" 5 "[''ab'', ''aba'']"] by blast
  moreover have "solve (Suc 0) [] [[''a''], [''b'']] = Some ([], Inr [])"
    using solve_degenerate [of "[[''a''], [''b'']]" 0 "[]"] by blast
  ultimately show ?thesis by blast
qed

text \<open>
  C9, as the claim has it, promises empty results for every layout with a side
  without letters. The builder skips such a side and connects the others: with the
  sides a, none and b and the dictionary \<open>aba\<close> the run finds a word and a solution.
\<close>

theorem solve_empty_side:
  "[] \<in> set [[''a''], [], [''b'']] \<and>
   nodes (createLetterBoxGraph [[''a''], [], [''b'']]) = [''00:a'', ''20:b''] \<and>
   solve 4 [''aba''] [[''a''], [], [''b'']]
     = Some ([\<lparr>word = ''aba'', nodeKeys = [''00:a'', ''20:b'', ''00:a'']\<rparr>],
             Inr [\<lparr>numSeenLetterNodes = 2,
                   letterBoxWordList =
                     [\<lparr>word = ''aba'', nodeKeys = [''00:a'', ''20:b'', ''00:a'']\<rparr>]\<rparr>])"
  by code_simp

end
